theory Spec2Isabelle
  imports Main "HOL-Library.Char_ord" "HOL-Library.List_Lexorder"
begin

text \<open>
  A shallow embedding of the HTML builder \<open>dominate\<close>: the escaping functions of
  \<open>util.py\<close> and the tag tree, the context stack and the renderer of
  \<open>dom_tag.py\<close>.

  Conventions. A Python string is a \<open>string\<close>; a character is a code point below
  256. A call that raises returns \<open>Inl\<close> of the exception; an \<open>Inl\<close> result
  carries no successor state. Mutable objects live in a store that the functions take and
  return. \<open>setdocument\<close> and \<open>_render\<close> recurse over the object graph, which may be
  cyclic; their models take the number of nested calls the interpreter still allows
  (\<open>limit\<close>) and return \<open>RecursionError\<close> when it is used up, as Python does.
  The names are the source's, without leading underscores; \<open>__init__\<close>,
  \<open>__enter__\<close>, \<open>__exit__\<close> and \<open>__getitem__\<close> are \<open>init\<close>, \<open>enter\<close>,
  \<open>exit\<close> and \<open>getitem\<close>, and \<open>_render\<close>, \<open>_render_children\<close>,
  \<open>_add_to_ctx\<close> are \<open>render_node\<close>, \<open>render_children\<close>, \<open>add_to_ctx\<close>.
\<close>

section \<open>Exceptions\<close>

text \<open>
  The exceptions the modelled code raises. \<open>Unrepresentable\<close> is not a Python
  exception: it marks the one place where the source produces a character outside the
  model's character type (\<open>unichr\<close> of a code point from 256 on). From
  \<open>0x110000\<close> on \<open>unichr\<close> raises; \<open>ValueError\<close> stands for that, also where
  Python reports an \<open>OverflowError\<close> for a very large argument.
\<close>

datatype error = TypeError | KeyError | IndexError | ValueError | AttributeError
  | RecursionError | Unrepresentable

fun bind_err :: "error + 'a \<Rightarrow> ('a \<Rightarrow> error + 'b) \<Rightarrow> error + 'b" where
  "bind_err (Inl e) f = Inl e"
| "bind_err (Inr x) f = f x"

fun map_ok :: "('a \<Rightarrow> 'b) \<Rightarrow> error + 'a \<Rightarrow> error + 'b" where
  "map_ok f (Inl e) = Inl e"
| "map_ok f (Inr x) = Inr (f x)"

section \<open>\<open>util.py\<close>: HTML escaping\<close>

text \<open>
  \<open>replace1 old new data\<close> is \<open>data.replace(old, new)\<close> for a pattern \<open>old\<close> of
  one character. \<open>escape\<close> performs the source's replacements in the source's order.
\<close>

definition replace1 :: "char \<Rightarrow> string \<Rightarrow> string \<Rightarrow> string" where
  "replace1 old new data = concat (map (\<lambda>c. if c = old then new else [c]) data)"

definition escape :: "string \<Rightarrow> bool \<Rightarrow> string" where
  "escape data quote =
     (let data1 = replace1 (CHR ''&'') ''&amp;'' data;
          data2 = replace1 (CHR ''<'') ''&lt;'' data1;
          data3 = replace1 (CHR ''>'') ''&gt;'' data2
      in if quote then replace1 (CHR 0x22) ''&quot;'' data3 else data3)"

text \<open>
  \<open>unescape\<close> searches the pattern \<open>&(?:(?:#(\d+))|([^;]+));\<close> repeatedly.
  \<open>cc_match\<close> is a match of the pattern at the start of its argument: the groups and
  the text after the match. The first alternative needs \<open>#\<close>, the maximal run of
  digits (not empty) and a semicolon right after it; giving back digits cannot help,
  since the character after a shorter run is a digit. Otherwise the second alternative
  needs at least one character other than a semicolon after the ampersand, then the first
  semicolon. \<open>cc_search\<close> is \<open>cc.search\<close>: the leftmost match, with the text
  before it. \<open>decode\<close> is the body of the loop that turns the groups into a
  character, and \<open>unescape_loop\<close> is the \<open>while\<close> loop with its \<open>result\<close> list.
\<close>

definition unescape_table :: "(string \<times> nat) list" where
  "unescape_table =
     [(''quot'', 34), (''amp'', 38), (''lt'', 60), (''gt'', 62), (''nbsp'', 32), (''yuml'', 255)]"

definition unichr :: "nat \<Rightarrow> error + char" where
  "unichr d = (if d < 256 then Inr (char_of d)
               else if d < 0x110000 then Inl Unrepresentable else Inl ValueError)"

definition is_digit :: "char \<Rightarrow> bool" where
  "is_digit c = (c \<in> set ''0123456789'')"

definition int_decimal :: "string \<Rightarrow> nat" where
  "int_decimal ds = fold (\<lambda>c n. 10 * n + (of_char c - 48)) ds 0"

datatype groups = Group1 string | Group2 string

definition cc_match :: "string \<Rightarrow> (groups \<times> string) option" where
  "cc_match data =
     (case data of
        [] \<Rightarrow> None
      | c # rest \<Rightarrow>
          if c \<noteq> CHR ''&'' then None
          else
            let ds = takeWhile is_digit (tl rest);
                after_ds = dropWhile is_digit (tl rest);
                nm = takeWhile (\<lambda>x. x \<noteq> CHR '';'') rest;
                after_nm = dropWhile (\<lambda>x. x \<noteq> CHR '';'') rest
            in if rest \<noteq> [] \<and> hd rest = CHR ''#'' \<and> ds \<noteq> [] \<and> take 1 after_ds = '';''
               then Some (Group1 ds, tl after_ds)
               else if nm \<noteq> [] \<and> after_nm \<noteq> [] then Some (Group2 nm, tl after_nm)
               else None)"

fun cc_search :: "string \<Rightarrow> (string \<times> groups \<times> string) option" where
  "cc_search [] = None"
| "cc_search (c # cs) =
     (case cc_match (c # cs) of
        Some (g, rest) \<Rightarrow> Some ([], g, rest)
      | None \<Rightarrow>
          (case cc_search cs of
             None \<Rightarrow> None
           | Some (pre, g, rest) \<Rightarrow> Some (c # pre, g, rest)))"

definition decode :: "groups \<Rightarrow> error + char" where
  "decode g =
     (case g of
        Group1 d_ \<Rightarrow> unichr (int_decimal d_)
      | Group2 nm \<Rightarrow> unichr (case map_of unescape_table nm of Some d \<Rightarrow> d | None \<Rightarrow> of_char (CHR ''?'')))"

lemma length_tl_dropWhile_le: "length (tl (dropWhile P xs)) \<le> length xs"
  by (metis diff_le_self le_trans length_dropWhile_le length_tl)

lemma cc_match_shorter: "cc_match data = Some (g, rest) \<Longrightarrow> length rest < length data"
proof (cases data)
  case Nil
  then show "cc_match data = Some (g, rest) \<Longrightarrow> length rest < length data"
    by (simp add: cc_match_def)
next
  case (Cons c cs)
  assume m: "cc_match data = Some (g, rest)"
  have a: "length (tl (dropWhile is_digit (tl cs))) \<le> length cs"
    by (metis diff_le_self le_trans length_tl length_tl_dropWhile_le)
  have b: "length (tl (dropWhile (\<lambda>x. x \<noteq> CHR '';'') cs)) \<le> length cs"
    by (rule length_tl_dropWhile_le)
  from m Cons have "rest = tl (dropWhile is_digit (tl cs)) \<or> rest = tl (dropWhile (\<lambda>x. x \<noteq> CHR '';'') cs)"
    by (auto simp: cc_match_def Let_def split: if_splits)
  with a b Cons show "length rest < length data"
    by auto
qed

lemma cc_search_shorter: "cc_search data = Some (pre, g, rest) \<Longrightarrow> length rest < length data"
proof (induction data arbitrary: pre)
  case Nil
  then show ?case by simp
next
  case (Cons c cs)
  show ?case
  proof (cases "cc_match (c # cs)")
    case None
    with Cons.prems obtain pre' where "cc_search cs = Some (pre', g, rest)"
      by (auto split: option.splits)
    then have "length rest < length cs" by (rule Cons.IH)
    then show ?thesis by simp
  next
    case (Some m)
    with Cons.prems have "cc_match (c # cs) = Some (g, rest)"
      by (auto split: prod.splits)
    then show ?thesis by (rule cc_match_shorter)
  qed
qed

function unescape_loop :: "string list \<Rightarrow> string \<Rightarrow> error + string list" where
  "unescape_loop result data =
     (case cc_search data of
        None \<Rightarrow> Inr (result @ [data])
      | Some (pre, g, rest) \<Rightarrow>
          (case decode g of
             Inl e \<Rightarrow> Inl e
           | Inr ch \<Rightarrow> unescape_loop (result @ [pre, [ch]]) rest))"
  by pat_completeness auto
termination
  by (relation "measure (\<lambda>(result, data). length data)") (auto dest: cc_search_shorter)

declare unescape_loop.simps [simp del]

definition unescape :: "string \<Rightarrow> error + string" where
  "unescape data = map_ok concat (unescape_loop [] data)"

text \<open>
  The specification's description of \<open>escape\<close>, character by character; it is
  compared with \<open>escape\<close> in the round-trip theorem.
\<close>

definition escape_char :: "bool \<Rightarrow> char \<Rightarrow> string" where
  "escape_char quote c =
     (if c = CHR ''&'' then ''&amp;'' else if c = CHR ''<'' then ''&lt;''
      else if c = CHR ''>'' then ''&gt;'' else if c = CHR 0x22 \<and> quote then ''&quot;'' else [c])"

section \<open>\<open>util.py\<close>: URL escaping\<close>

text \<open>
  \<open>format_2X n\<close> is \<open>'%2X' % n\<close>: upper-case hexadecimal digits, padded with
  spaces on the left to two characters. \<open>replace_map\<close> is \<open>_replace_map\<close>, built
  from \<open>_reserved\<close> as in the source. \<open>url_unescape\<close> is
  \<open>re.sub('%([0-9a-fA-F]{2})', ...)\<close>: a left-to-right scan that replaces a percent
  sign followed by two hexadecimal digits and does not look at the replacement again.
\<close>

definition hexdigit_upper :: "nat \<Rightarrow> char" where
  "hexdigit_upper d = ''0123456789ABCDEF'' ! d"

function upper_hex :: "nat \<Rightarrow> string" where
  "upper_hex n = (if n < 16 then [hexdigit_upper n] else upper_hex (n div 16) @ [hexdigit_upper (n mod 16)])"
  by pat_completeness auto
termination
  by (relation "measure id") auto

declare upper_hex.simps [simp del]

definition format_2X :: "nat \<Rightarrow> string" where
  "format_2X n = (let h = upper_hex n in replicate (2 - length h) (CHR '' '') @ h)"

definition reserved :: string where
  "reserved = '';/?:@&=+$, ''"

definition replace_map :: "(char \<times> string) list" where
  "replace_map = map (\<lambda>c. (c, CHR ''%'' # format_2X (of_char c))) reserved"

definition url_escape :: "string \<Rightarrow> string" where
  "url_escape data = concat (map (\<lambda>c. case map_of replace_map c of Some r \<Rightarrow> r | None \<Rightarrow> [c]) data)"

definition is_hexdigit :: "char \<Rightarrow> bool" where
  "is_hexdigit c = (c \<in> set ''0123456789abcdefABCDEF'')"

definition hexval :: "char \<Rightarrow> nat" where
  "hexval c = (let n = of_char c in
     if n < 58 then n - 48 else if n < 71 then n - 55 else n - 87)"

fun url_unescape :: "string \<Rightarrow> string" where
  "url_unescape (p # a # b # rest) =
     (if p = CHR ''%'' \<and> is_hexdigit a \<and> is_hexdigit b
      then char_of (16 * hexval a + hexval b) # url_unescape rest
      else p # url_unescape (a # b # rest))"
| "url_unescape data = data"

section \<open>\<open>dom_tag.py\<close>: data\<close>

text \<open>
  Objects live in a store: a reference is an index into the list of allocated
  \<open>dom_tag\<close> objects, and \<open>object.__new__\<close> appends to it. The fields are those set
  by \<open>dom_tag.__init__\<close>, typed as its type comments declare them: \<open>attributes\<close> is a
  dict from names to a string or \<open>False\<close>, kept as an association list in insertion
  order with distinct keys; \<open>children\<close> is a list of tags and strings. The class of an
  object carries the class attributes \<open>is_single\<close>, \<open>is_pretty\<close>, \<open>is_inline\<close>,
  its \<open>__name__\<close> and the optional class attribute \<open>tagname\<close>. All objects are
  instances of classes that inherit \<open>_render\<close> from \<open>dom_tag\<close>.
\<close>

type_synonym ref = nat

datatype attr_value = Str string | PyFalse

datatype child = Tag ref | Text string

record tag_class =
  class_name :: string
  class_tagname :: "string option"
  class_is_single :: bool
  class_is_pretty :: bool
  class_is_inline :: bool

record dom_tag =
  klass :: tag_class
  attributes :: "(string \<times> attr_value) list"
  children :: "child list"
  parent :: "ref option"
  document :: "ref option"
  is_inline :: bool
  is_pretty :: bool

record frame =
  tag :: ref
  items :: "ref list"
  used :: "ref set"

record state =
  heap :: "dom_tag list"
  with_contexts :: "nat \<Rightarrow> frame list option"

text \<open>
  Left out of the records: the field \<open>_ctx\<close> (read only by \<open>__call__\<close>, the
  decorator use of a tag, which is not modelled) and the return value of \<open>add\<close>
  (its arguments). A reference handed to a function denotes an allocated object, as
  every Python reference does; the theorems say so where they need it
  (\<open>P < length (heap s)\<close>). A frame is the named tuple \<open>frame\<close>; \<open>with_contexts\<close>
  is the class attribute \<open>_with_contexts\<close>, a dict from the hash of the calling thread
  and greenlet to a stack of frames. That hash is the argument \<open>tid\<close> of the functions
  below.
\<close>

subsection \<open>Python dicts, list indices and slices\<close>

text \<open>
  \<open>dict_set\<close> is \<open>d[k] = v\<close> (an existing key keeps its place),
  \<open>dict_del\<close> is \<open>del d[k]\<close> for a key that is there. \<open>list_index n i\<close> is the
  position a list of length \<open>n\<close> gives the index \<open>i\<close>, negative indices counted
  from the end, and \<open>None\<close> where indexing raises \<open>IndexError\<close>. \<open>del_slice\<close> is
  \<open>del xs[start:stop]\<close>, whose bounds are clipped and which never raises.
\<close>

fun dict_set :: "('k \<times> 'v) list \<Rightarrow> 'k \<Rightarrow> 'v \<Rightarrow> ('k \<times> 'v) list" where
  "dict_set [] k v = [(k, v)]"
| "dict_set ((k', v') # d) k v = (if k' = k then (k', v) # d else (k', v') # dict_set d k v)"

definition dict_del :: "('k \<times> 'v) list \<Rightarrow> 'k \<Rightarrow> ('k \<times> 'v) list" where
  "dict_del d k = filter (\<lambda>kv. fst kv \<noteq> k) d"

definition list_index :: "nat \<Rightarrow> int \<Rightarrow> nat option" where
  "list_index n i =
     (if 0 \<le> i \<and> i < int n then Some (nat i)
      else if i < 0 \<and> - int n \<le> i then Some (nat (int n + i))
      else None)"

definition slice_bound :: "nat \<Rightarrow> int \<Rightarrow> nat" where
  "slice_bound n i = (if i < 0 then nat (max 0 (int n + i)) else min n (nat i))"

definition del_slice :: "'a list \<Rightarrow> int \<Rightarrow> int \<Rightarrow> 'a list" where
  "del_slice xs start stop =
     (let a = slice_bound (length xs) start; b = slice_bound (length xs) stop
      in if a < b then take a xs @ drop b xs else xs)"

subsection \<open>Item access: \<open>set_attribute\<close>, \<open>delete_attribute\<close>, \<open>__getitem__\<close>\<close>

text \<open>
  A key is an \<open>int\<close>, a string or something else; of the latter only whether it can
  be hashed matters (\<open>None\<close>, a float and a tuple can, a list cannot), and none is
  equal to a string. \<open>set_attribute\<close> has two typed overloads and an untyped
  fall-through, the three constructors of \<open>assignment\<close>. \<open>__getitem__\<close> catches
  \<open>KeyError\<close> around the list access, which raises \<open>IndexError\<close>: the handler never
  runs and the \<open>IndexError\<close> of the list leaves the function.
\<close>

datatype other_key = Hashable | Unhashable

datatype key = IntKey int | StrKey string | OtherKey other_key

datatype item = ChildItem child | AttrItem attr_value

datatype assignment = Child_at int child | Attr_at string attr_value | Other_at other_key item

fun set_attribute :: "dom_tag \<Rightarrow> assignment \<Rightarrow> error + dom_tag" where
  "set_attribute self (Child_at key v) =
     (case list_index (length (children self)) key of
        None \<Rightarrow> Inl IndexError
      | Some i \<Rightarrow> Inr (self\<lparr>children := (children self)[i := v]\<rparr>))"
| "set_attribute self (Attr_at key v) = Inr (self\<lparr>attributes := dict_set (attributes self) key v\<rparr>)"
| "set_attribute self (Other_at key v) = Inl TypeError"

fun delete_attribute :: "dom_tag \<Rightarrow> key \<Rightarrow> error + dom_tag" where
  "delete_attribute self (IntKey key) =
     Inr (self\<lparr>children := del_slice (children self) key (key + 1)\<rparr>)"
| "delete_attribute self (StrKey key) =
     (case map_of (attributes self) key of
        None \<Rightarrow> Inl KeyError
      | Some v \<Rightarrow> Inr (self\<lparr>attributes := dict_del (attributes self) key\<rparr>))"
| "delete_attribute self (OtherKey Hashable) = Inl KeyError"
| "delete_attribute self (OtherKey Unhashable) = Inl TypeError"

fun getitem :: "dom_tag \<Rightarrow> key \<Rightarrow> error + item" where
  "getitem self (IntKey key) =
     (case list_index (length (children self)) key of
        None \<Rightarrow> Inl IndexError
      | Some i \<Rightarrow> Inr (ChildItem (children self ! i)))"
| "getitem self (StrKey key) =
     (case map_of (attributes self) key of
        None \<Rightarrow> Inl AttributeError
      | Some v \<Rightarrow> Inr (AttrItem v))"
| "getitem self (OtherKey key) = Inl TypeError"

subsection \<open>Attribute names: \<open>clean_attribute\<close>, \<open>clean_pair\<close>\<close>

text \<open>
  \<open>lower\<close> is \<open>str.lower\<close> on code points below 256; \<open>replace_first\<close> is
  \<open>replace(old, new, 1)\<close>; \<open>takeWhile (\<lambda>c. c \<noteq> CHR ''_'')\<close> is
  \<open>split('_')[0]\<close>. \<open>attribute[0]\<close> raises \<open>IndexError\<close> on the empty string.
  A keyword value is a string or a \<open>bool\<close>, as the type comment of \<open>__init__\<close>
  says.
\<close>

definition startswith :: "string \<Rightarrow> string \<Rightarrow> bool" where
  "startswith s p = (take (length p) s = p)"

definition lower_char :: "char \<Rightarrow> char" where
  "lower_char c =
     (let n = (of_char c :: nat)
      in if (65 \<le> n \<and> n \<le> 90) \<or> (192 \<le> n \<and> n \<le> 222 \<and> n \<noteq> 215) then char_of (n + 32) else c)"

definition lower :: "string \<Rightarrow> string" where
  "lower s = map lower_char s"

fun replace_first :: "char \<Rightarrow> string \<Rightarrow> string \<Rightarrow> string" where
  "replace_first old new [] = []"
| "replace_first old new (c # cs) = (if c = old then new @ cs else c # replace_first old new cs)"

definition shorthand :: "(string \<times> string) list" where
  "shorthand =
     [(''cls'', ''class''), (''className'', ''class''), (''class_name'', ''class''),
      (''fr'', ''for''), (''html_for'', ''for''), (''htmlFor'', ''for'')]"

definition clean_attribute :: "string \<Rightarrow> error + string" where
  "clean_attribute attribute =
     (let a1 = (case map_of shorthand attribute of Some full \<Rightarrow> full | None \<Rightarrow> attribute)
      in if a1 = [] then Inl IndexError
         else
           let a2 = (if hd a1 = CHR ''_'' then tl a1 else a1);
               special_prefix = (startswith a2 ''data_'' \<or> startswith a2 ''aria_'');
               a3 = (if a2 = ''http_equiv'' \<or> special_prefix
                     then lower (replace1 (CHR ''_'') ''-'' a2) else a2);
               a4 = (if takeWhile (\<lambda>c. c \<noteq> CHR ''_'') a3 \<in> set [''xlink'', ''xml'', ''xmlns'']
                     then lower (replace_first (CHR ''_'') '':'' a3) else a3)
           in Inr a4)"

datatype kwvalue = KwStr string | KwBool bool

fun truthy :: "kwvalue \<Rightarrow> bool" where
  "truthy (KwStr s) = (s \<noteq> [])"
| "truthy (KwBool b) = b"

definition clean_pair :: "string \<Rightarrow> kwvalue \<Rightarrow> error + (string \<times> attr_value)" where
  "clean_pair attribute v =
     bind_err (clean_attribute attribute) (\<lambda>a.
       Inr (a, case v of KwBool True \<Rightarrow> Str a | KwBool False \<Rightarrow> PyFalse | KwStr s \<Rightarrow> Str s))"

subsection \<open>The context stack\<close>

text \<open>
  \<open>update_top_frame\<close> is the pattern
  \<open>stack = _with_contexts.get(tid); if stack: stack[-1]...\<close>, which does nothing
  when the context has no entry or an empty stack. \<open>enter\<close> reads the
  \<open>defaultdict\<close> with \<open>[]\<close>, which creates the entry. \<open>get_current\<close> takes the
  default as an option: \<open>None\<close> is the sentinel \<open>_get_current_none\<close> of a call
  without argument.
\<close>

definition update_node :: "ref \<Rightarrow> (dom_tag \<Rightarrow> dom_tag) \<Rightarrow> state \<Rightarrow> state" where
  "update_node r f s = s\<lparr>heap := (heap s)[r := f (heap s ! r)]\<rparr>"

definition update_top_frame :: "nat \<Rightarrow> (frame \<Rightarrow> frame) \<Rightarrow> state \<Rightarrow> state" where
  "update_top_frame tid f s =
     (case with_contexts s tid of
        None \<Rightarrow> s
      | Some stack \<Rightarrow>
          if stack = [] then s
          else s\<lparr>with_contexts := (with_contexts s)(tid \<mapsto> butlast stack @ [f (last stack)])\<rparr>)"

definition add_to_ctx :: "nat \<Rightarrow> ref \<Rightarrow> state \<Rightarrow> state" where
  "add_to_ctx tid self s = update_top_frame tid (\<lambda>fr. fr\<lparr>items := items fr @ [self]\<rparr>) s"

definition enter :: "nat \<Rightarrow> ref \<Rightarrow> state \<Rightarrow> state" where
  "enter tid self s =
     (let stack = (case with_contexts s tid of None \<Rightarrow> [] | Some st \<Rightarrow> st)
      in s\<lparr>with_contexts :=
            (with_contexts s)(tid \<mapsto> stack @ [\<lparr>tag = self, items = [], used = {}\<rparr>])\<rparr>)"

datatype 'a current = Current_tag ref | Default_value 'a

definition get_current :: "nat \<Rightarrow> 'a option \<Rightarrow> state \<Rightarrow> error + 'a current" where
  "get_current h dflt s =
     (let ctx = with_contexts s h
      in if ctx \<noteq> None \<and> the ctx \<noteq> [] then Inr (Current_tag (tag (last (the ctx))))
         else case dflt of
                None \<Rightarrow> Inl ValueError
              | Some d \<Rightarrow> Inr (Default_value d))"

subsection \<open>Building the tree: \<open>setdocument\<close>, \<open>add\<close>, \<open>__init__\<close>, \<open>__exit__\<close>\<close>

text \<open>
  \<open>setdocument_children\<close> is the \<open>for\<close> loop of \<open>setdocument\<close>; at a child
  that is not a tag the source executes \<open>return\<close>. An argument of \<open>add\<close> is a
  number (given by its \<open>str()\<close>), a string, a tag, a dict of attributes, another
  iterable (its elements in order) or some other object that is not callable.
  \<open>add_obj\<close> is the body of the loop of \<open>add\<close>, \<open>add_args\<close> the loop, \<open>add_tag\<close>
  the branch for a tag. \<open>init\<close> is \<open>object.__new__\<close> followed by \<open>__init__\<close>;
  the decorator branch of \<open>__new__\<close> (one callable argument) is not modelled.
  \<open>exit_items\<close> is the loop of \<open>__exit__\<close> over the items of the popped frame.
\<close>

fun setdocument :: "nat \<Rightarrow> dom_tag list \<Rightarrow> ref \<Rightarrow> ref option \<Rightarrow> error + dom_tag list"
  and setdocument_children :: "nat \<Rightarrow> dom_tag list \<Rightarrow> child list \<Rightarrow> ref option \<Rightarrow> error + dom_tag list"
where
  "setdocument 0 h self doc = Inl RecursionError"
| "setdocument (Suc limit) h self doc =
     (if document (h ! self) \<noteq> doc
      then setdocument_children limit (h[self := (h ! self)\<lparr>document := doc\<rparr>]) (children (h ! self)) doc
      else Inr h)"
| "setdocument_children limit h [] doc = Inr h"
| "setdocument_children limit h (Text t # cs) doc = Inr h"
| "setdocument_children limit h (Tag i # cs) doc =
     (case setdocument limit h i doc of
        Inl e \<Rightarrow> Inl e
      | Inr h' \<Rightarrow> setdocument_children limit h' cs doc)"

datatype addable = ANumber string | AString string | ATag ref
  | ADict "(string \<times> kwvalue) list" | AIterable "addable list" | AOther

fun set_attributes :: "ref \<Rightarrow> (string \<times> kwvalue) list \<Rightarrow> state \<Rightarrow> error + state" where
  "set_attributes self [] s = Inr s"
| "set_attributes self ((attr, v) # rest) s =
     (case clean_pair attr v of
        Inl e \<Rightarrow> Inl e
      | Inr (a, v') \<Rightarrow>
          (case set_attribute (heap s ! self) (Attr_at a v') of
             Inl e \<Rightarrow> Inl e
           | Inr n \<Rightarrow> set_attributes self rest (s\<lparr>heap := (heap s)[self := n]\<rparr>)))"

definition add_tag :: "nat \<Rightarrow> nat \<Rightarrow> ref \<Rightarrow> ref \<Rightarrow> state \<Rightarrow> error + state" where
  "add_tag limit tid self obj s =
     (let s1 = update_top_frame tid (\<lambda>fr. fr\<lparr>used := insert obj (used fr)\<rparr>) s;
          s2 = update_node self (\<lambda>n. n\<lparr>children := children n @ [Tag obj]\<rparr>) s1;
          s3 = update_node obj (\<lambda>n. n\<lparr>parent := Some self\<rparr>) s2
      in map_ok (\<lambda>h. s3\<lparr>heap := h\<rparr>) (setdocument limit (heap s3) obj (document (heap s3 ! self))))"

fun add_obj :: "nat \<Rightarrow> nat \<Rightarrow> ref \<Rightarrow> addable \<Rightarrow> state \<Rightarrow> error + state"
  and add_args :: "nat \<Rightarrow> nat \<Rightarrow> ref \<Rightarrow> addable list \<Rightarrow> state \<Rightarrow> error + state"
where
  "add_obj limit tid self (ANumber str_obj) s =
     Inr (update_node self (\<lambda>n. n\<lparr>children := children n @ [Text (escape str_obj True)]\<rparr>) s)"
| "add_obj limit tid self (AString obj) s =
     Inr (update_node self (\<lambda>n. n\<lparr>children := children n @ [Text (escape obj True)]\<rparr>) s)"
| "add_obj limit tid self (ATag obj) s = add_tag limit tid self obj s"
| "add_obj limit tid self (ADict obj) s = set_attributes self obj s"
| "add_obj limit tid self (AIterable obj) s = add_args limit tid self obj s"
| "add_obj limit tid self AOther s = Inl ValueError"
| "add_args limit tid self [] s = Inr s"
| "add_args limit tid self (obj # args) s =
     (case add_obj limit tid self obj s of
        Inl e \<Rightarrow> Inl e
      | Inr s' \<Rightarrow> add_args limit tid self args s')"

definition add :: "nat \<Rightarrow> nat \<Rightarrow> ref \<Rightarrow> addable list \<Rightarrow> state \<Rightarrow> error + state" where
  "add limit tid self args s = add_args limit tid self args s"

definition init ::
  "nat \<Rightarrow> nat \<Rightarrow> tag_class \<Rightarrow> addable list \<Rightarrow> (string \<times> kwvalue) list \<Rightarrow> state \<Rightarrow> error + (ref \<times> state)" where
  "init limit tid cls args kwargs s =
     (let self = length (heap s);
          node = \<lparr>klass = cls, attributes = [], children = [], parent = None, document = None,
                  is_inline = (case map_of kwargs ''__inline'' of
                                 Some v \<Rightarrow> truthy v | None \<Rightarrow> class_is_inline cls),
                  is_pretty = (case map_of kwargs ''__pretty'' of
                                 Some v \<Rightarrow> truthy v | None \<Rightarrow> class_is_pretty cls)\<rparr>;
          kwargs' = filter (\<lambda>kv. fst kv \<noteq> ''__inline'' \<and> fst kv \<noteq> ''__pretty'') kwargs;
          s0 = s\<lparr>heap := heap s @ [node]\<rparr>
      in bind_err (if args \<noteq> [] then add limit tid self args s0 else Inr s0) (\<lambda>s1.
         bind_err (set_attributes self kwargs' s1) (\<lambda>s2.
         Inr (self, add_to_ctx tid self s2))))"

fun exit_items :: "nat \<Rightarrow> nat \<Rightarrow> ref \<Rightarrow> frame \<Rightarrow> ref list \<Rightarrow> state \<Rightarrow> error + state" where
  "exit_items limit tid self fr [] s = Inr s"
| "exit_items limit tid self fr (item # rest) s =
     (if item \<in> used fr then exit_items limit tid self fr rest s
      else case add limit tid self [ATag item] s of
             Inl e \<Rightarrow> Inl e
           | Inr s' \<Rightarrow> exit_items limit tid self fr rest s')"

definition exit :: "nat \<Rightarrow> nat \<Rightarrow> ref \<Rightarrow> state \<Rightarrow> error + state" where
  "exit limit thread_id self s =
     (let stack = (case with_contexts s thread_id of None \<Rightarrow> [] | Some st \<Rightarrow> st)
      in if stack = [] then Inl IndexError
         else
           let fr = last stack;
               s0 = s\<lparr>with_contexts := (with_contexts s)(thread_id \<mapsto> butlast stack)\<rparr>
           in bind_err (exit_items limit thread_id self fr (items fr) s0) (\<lambda>s1.
                Inr (if with_contexts s1 thread_id = Some []
                     then s1\<lparr>with_contexts := (with_contexts s1)(thread_id := None)\<rparr>
                     else s1)))"

subsection \<open>Rendering\<close>

text \<open>
  \<open>tag_name\<close> is the value of \<open>name\<close> in \<open>_render\<close>.
  \<open>getattr(self, 'tagname', type(self).__name__)\<close> finds a class attribute
  \<open>tagname\<close> first; failing that it calls \<open>__getattr__\<close>, which is
  \<open>__getitem__\<close>, so an HTML attribute called \<open>tagname\<close> is returned if there is
  one (and \<open>name[-1]\<close> raises \<open>TypeError\<close> when its value is \<open>False\<close>); only
  then the class name is used. \<open>render_attributes\<close> is the loop over
  \<open>sorted(self.attributes.items())\<close>: the keys are distinct, so the pairs are
  ordered by their keys. The buffer \<open>sb\<close> is a list of strings; \<open>render\<close> joins it.
  \<open>render_children\<close> carries the local variable \<open>inline\<close> of the loop.
\<close>

definition tag_name :: "dom_tag \<Rightarrow> error + string" where
  "tag_name self =
     bind_err
       (case class_tagname (klass self) of
          Some t \<Rightarrow> Inr t
        | None \<Rightarrow>
            (case map_of (attributes self) ''tagname'' of
               Some (Str v) \<Rightarrow> Inr v
             | Some PyFalse \<Rightarrow> Inl TypeError
             | None \<Rightarrow> Inr (class_name (klass self))))
       (\<lambda>name. if name = [] then Inl IndexError
                else Inr (if last name = CHR ''_'' then butlast name else name))"

definition render_attribute :: "string \<times> attr_value \<Rightarrow> string list" where
  "render_attribute kv =
     (case snd kv of
        PyFalse \<Rightarrow> []
      | Str v \<Rightarrow> ['' '' @ fst kv @ ''='' @ [CHR 0x22] @ escape v True @ [CHR 0x22]])"

definition render_attributes :: "(string \<times> attr_value) list \<Rightarrow> string list" where
  "render_attributes attrs = concat (map render_attribute (sort_key fst attrs))"

definition times :: "string \<Rightarrow> nat \<Rightarrow> string" where
  "times indent_str indent_level = concat (replicate indent_level indent_str)"

fun render_node ::
    "nat \<Rightarrow> dom_tag list \<Rightarrow> ref \<Rightarrow> string list \<Rightarrow> nat \<Rightarrow> string \<Rightarrow> bool \<Rightarrow> bool \<Rightarrow> error + string list"
  and render_children ::
    "nat \<Rightarrow> dom_tag list \<Rightarrow> child list \<Rightarrow> bool \<Rightarrow> string list \<Rightarrow> nat \<Rightarrow> string \<Rightarrow> bool \<Rightarrow> bool
       \<Rightarrow> error + (string list \<times> bool)"
where
  "render_node 0 h self sb indent_level indent_str pretty xhtml = Inl RecursionError"
| "render_node (Suc limit) h self sb indent_level indent_str pretty xhtml =
     (let node = h ! self;
          pretty' = (pretty \<and> is_pretty node)
      in case tag_name node of
           Inl e \<Rightarrow> Inl e
         | Inr name \<Rightarrow>
             let sb1 = sb @ [''<'', name] @ render_attributes (attributes node)
                         @ [if class_is_single (klass node) \<and> xhtml then '' />'' else ''>'']
             in if class_is_single (klass node) then Inr sb1
                else
                  (case render_children limit h (children node) True sb1 (indent_level + 1)
                          indent_str pretty' xhtml of
                     Inl e \<Rightarrow> Inl e
                   | Inr (sb2, inline) \<Rightarrow>
                       Inr ((if pretty' \<and> \<not> inline
                             then sb2 @ [[CHR 0x0A], times indent_str indent_level] else sb2)
                            @ [''</'', name, ''>''])))"
| "render_children limit h [] inline sb indent_level indent_str pretty xhtml = Inr (sb, inline)"
| "render_children limit h (Text t # cs) inline sb indent_level indent_str pretty xhtml =
     render_children limit h cs inline (sb @ [t]) indent_level indent_str pretty xhtml"
| "render_children limit h (Tag c # cs) inline sb indent_level indent_str pretty xhtml =
     (let break = (pretty \<and> \<not> is_inline (h ! c));
          sb1 = (if break then sb @ [[CHR 0x0A], times indent_str indent_level] else sb)
      in case render_node limit h c sb1 indent_level indent_str pretty xhtml of
           Inl e \<Rightarrow> Inl e
         | Inr sb2 \<Rightarrow>
             render_children limit h cs (inline \<and> \<not> break) sb2 indent_level indent_str pretty xhtml)"

definition render :: "nat \<Rightarrow> dom_tag list \<Rightarrow> ref \<Rightarrow> string \<Rightarrow> bool \<Rightarrow> bool \<Rightarrow> error + string" where
  "render limit h self indent pretty xhtml =
     map_ok concat (render_node limit h self [] 0 indent pretty xhtml)"


section \<open>Notions and programs used in the statements\<close>

text \<open>
  \<open>frame_open\<close>: the context has a frame on its stack. \<open>plain_class\<close>: a tag class
  with the default flags of \<open>dom_tag\<close>. \<open>build_example\<close> is
  \<open>div(p("hello"), span("world", cls="hi"))\<close>, the arguments constructed first;
  \<open>setdocument_example\<close> and \<open>nested_add_example\<close> are the runs described with
  their theorems. \<open>set_items\<close> is a sequence of assignments \<open>self[key] = value\<close>,
  and \<open>emitted_names\<close> lists the names whose pieces the attribute loop appends, in
  its order.
\<close>

definition frame_open :: "state \<Rightarrow> nat \<Rightarrow> bool" where
  "frame_open s h = (case with_contexts s h of None \<Rightarrow> False | Some stack \<Rightarrow> stack \<noteq> [])"

definition empty_state :: state where
  "empty_state = \<lparr>heap = [], with_contexts = (\<lambda>t. None)\<rparr>"

definition node0 :: dom_tag where
  "node0 = \<lparr>klass = \<lparr>class_name = ''div'', class_tagname = None, class_is_single = False,
                      class_is_pretty = True, class_is_inline = False\<rparr>,
            attributes = [(''id'', Str ''x'')], children = [Text ''a'', Text ''b''],
            parent = None, document = None, is_inline = False, is_pretty = True\<rparr>"

definition plain_class :: "string \<Rightarrow> tag_class" where
  "plain_class name = \<lparr>class_name = name, class_tagname = None, class_is_single = False,
                        class_is_pretty = True, class_is_inline = False\<rparr>"

definition setdocument_example :: "nat \<Rightarrow> error + state" where
  "setdocument_example limit =
     bind_err (init limit 0 (plain_class ''html'') [] [] empty_state) (\<lambda>(doc, s1).
     bind_err (init limit 0 (plain_class ''div'') [] [] s1) (\<lambda>(top, s2).
     bind_err (map_ok (\<lambda>h. s2\<lparr>heap := h\<rparr>) (setdocument limit (heap s2) top (Some doc))) (\<lambda>s3.
     bind_err (init limit 0 (plain_class ''p'') [] [] s3) (\<lambda>(g1, s4).
     bind_err (init limit 0 (plain_class ''p'') [] [] s4) (\<lambda>(g2, s5).
     bind_err (init limit 0 (plain_class ''div'') [ATag g1, AString ''text'', ATag g2] [] s5) (\<lambda>(c, s6).
     add limit 0 top [ATag c] s6))))))"

definition nested_add_example :: "nat \<Rightarrow> error + state" where
  "nested_add_example limit =
     bind_err (init limit 0 (plain_class ''div'') [] [] empty_state) (\<lambda>(P, s1).
     bind_err (init limit 0 (plain_class ''ul'') [] [] s1) (\<lambda>(Q, s2).
     bind_err (init limit 0 (plain_class ''li'') [] [] (enter 0 P s2)) (\<lambda>(a, s3).
     bind_err (init limit 0 (plain_class ''li'') [] [] s3) (\<lambda>(b, s4).
     bind_err (init limit 0 (plain_class ''li'') [] [] s4) (\<lambda>(c, s5).
     bind_err (add limit 0 Q [ATag b] (enter 0 Q s5)) (\<lambda>s6.
     bind_err (exit limit 0 Q s6) (\<lambda>s7.
     exit limit 0 P s7)))))))"

definition build_example :: "nat \<Rightarrow> nat \<Rightarrow> state \<Rightarrow> error + (ref \<times> state)" where
  "build_example limit tid s =
     bind_err (init limit tid (plain_class ''p'') [AString ''hello''] [] s) (\<lambda>(p, s1).
     bind_err (init limit tid (plain_class ''span'') [AString ''world''] [(''cls'', KwStr ''hi'')] s1) (\<lambda>(sp, s2).
     init limit tid (plain_class ''div'') [ATag p, ATag sp] [] s2))"

definition selected_tag :: "tag_class \<Rightarrow> string list \<Rightarrow> attr_value \<Rightarrow> dom_tag" where
  "selected_tag cls texts v = \<lparr>klass = cls, attributes = [(''selected'', v)],
      children = map (\<lambda>t. Text (escape t True)) texts, parent = None, document = None,
      is_inline = class_is_inline cls, is_pretty = class_is_pretty cls\<rparr>"

definition emitted_names :: "(string \<times> attr_value) list \<Rightarrow> string list" where
  "emitted_names attrs = map fst (filter (\<lambda>kv. snd kv \<noteq> PyFalse) (sort_key fst attrs))"

fun set_items :: "dom_tag \<Rightarrow> assignment list \<Rightarrow> error + dom_tag" where
  "set_items self [] = Inr self"
| "set_items self (a # as) = bind_err (set_attribute self a) (\<lambda>self'. set_items self' as)"

subsection \<open>Scoped construction\<close>

text \<open>
  A \<open>call\<close> is a constructor call \<open>cls(*texts, **kwargs)\<close> whose positional
  arguments are strings, and \<open>construct\<close> runs it; \<open>named\<close> says that no keyword is
  the empty string (keywords written in a call never are), so that
  \<open>clean_attribute\<close> does not raise. \<open>with_three\<close> is the block
  \<open>with P: a = A; b = B; c = C; body\<close> for three such calls. \<open>text_children\<close> are
  the children a call gives its tag, \<open>built node c\<close> describes the object the call
  allocates, and \<open>constructed\<close> is the state in which \<open>body\<close> starts, the three
  objects allocated and collected by the frame of \<open>P\<close>. \<open>frames\<close> keeps of a stack
  the owner and the collected items of each frame. \<open>refs_closed\<close>: children lists
  refer to allocated objects only. The remaining notions serve the proofs:
  \<open>erase_doc\<close> forgets the document of an object, \<open>attach\<close> is what \<open>add\<close> does to
  the children and the parent, \<open>depth_within h k r\<close> bounds by \<open>k\<close> the nesting of tags
  below \<open>r\<close>, and \<open>shallow h self y\<close> says that the tags below \<open>y\<close> are other than
  \<open>self\<close> and have no tags below them.
\<close>

definition erase_doc :: "dom_tag \<Rightarrow> dom_tag" where
  "erase_doc n = n\<lparr>document := None\<rparr>"

fun child_ok :: "(ref \<Rightarrow> bool) \<Rightarrow> child \<Rightarrow> bool" where
  "child_ok P (Tag z) = P z"
| "child_ok P (Text t) = True"

primrec depth_within :: "dom_tag list \<Rightarrow> nat \<Rightarrow> ref \<Rightarrow> bool" where
  "depth_within h 0 = (\<lambda>r. False)"
| "depth_within h (Suc k) = (\<lambda>r. r < length h \<and> list_all (child_ok (depth_within h k)) (children (h ! r)))"

definition attach :: "dom_tag list \<Rightarrow> ref \<Rightarrow> ref \<Rightarrow> dom_tag list" where
  "attach h self obj =
     (let h1 = h[self := (h ! self)\<lparr>children := children (h ! self) @ [Tag obj]\<rparr>]
      in h1[obj := (h1 ! obj)\<lparr>parent := Some self\<rparr>])"

definition shallow :: "dom_tag list \<Rightarrow> ref \<Rightarrow> ref \<Rightarrow> bool" where
  "shallow h self y =
     (y < length h \<and> y \<noteq> self \<and>
      list_all (child_ok (\<lambda>z. z < length h \<and> z \<noteq> self \<and>
                  list_all (child_ok (\<lambda>u. False)) (children (h ! z)))) (children (h ! y)))"

definition frames :: "state \<Rightarrow> nat \<Rightarrow> (ref \<times> ref list) list option" where
  "frames s t = map_option (map (\<lambda>fr. (tag fr, items fr))) (with_contexts s t)"

record call =
  call_class :: tag_class
  call_texts :: "string list"
  call_kwargs :: "(string \<times> kwvalue) list"

definition construct :: "nat \<Rightarrow> nat \<Rightarrow> call \<Rightarrow> state \<Rightarrow> error + (ref \<times> state)" where
  "construct limit tid c s =
     init limit tid (call_class c) (map AString (call_texts c)) (call_kwargs c) s"

definition named :: "call \<Rightarrow> bool" where
  "named c = list_all (\<lambda>kv. fst kv \<noteq> []) (call_kwargs c)"

definition text_children :: "call \<Rightarrow> child list" where
  "text_children c = map (\<lambda>t. Text (escape t True)) (call_texts c)"

definition with_three ::
  "nat \<Rightarrow> nat \<Rightarrow> ref \<Rightarrow> call \<Rightarrow> call \<Rightarrow> call \<Rightarrow> (state \<Rightarrow> error + state) \<Rightarrow> state
     \<Rightarrow> error + state" where
  "with_three limit tid P A B C body s =
     bind_err (construct limit tid A (enter tid P s)) (\<lambda>(a, s1).
     bind_err (construct limit tid B s1) (\<lambda>(b, s2).
     bind_err (construct limit tid C s2) (\<lambda>(c, s3).
     bind_err (body s3) (\<lambda>s4. exit limit tid P s4))))"

definition refs_closed :: "dom_tag list \<Rightarrow> bool" where
  "refs_closed h = list_all (\<lambda>n. list_all (child_ok (\<lambda>z. z < length h)) (children n)) h"

definition constructed :: "nat \<Rightarrow> ref \<Rightarrow> dom_tag list \<Rightarrow> state \<Rightarrow> state" where
  "constructed tid P nodes s =
     s\<lparr>heap := heap s @ nodes,
       with_contexts := (with_contexts s)(tid \<mapsto>
         (case with_contexts s tid of None \<Rightarrow> [] | Some st \<Rightarrow> st) @
           [\<lparr>tag = P, items = [length (heap s), length (heap s) + 1, length (heap s) + 2], used = {}\<rparr>])\<rparr>"

definition built :: "dom_tag \<Rightarrow> call \<Rightarrow> bool" where
  "built node c = (children node = text_children c \<and> parent node = None \<and> document node = None)"

definition two_tags :: state where
  "two_tags =
     \<lparr>heap = [\<lparr>klass = plain_class ''div'', attributes = [], children = [], parent = None,
               document = None, is_inline = False, is_pretty = True\<rparr>,
              \<lparr>klass = plain_class ''ul'', attributes = [], children = [], parent = None,
               document = None, is_inline = False, is_pretty = True\<rparr>],
      with_contexts = (\<lambda>t. None)\<rparr>"

section \<open>Escaping: auxiliary facts\<close>

lemma replace1_Nil: "replace1 old new [] = []"
  by (simp add: replace1_def)

lemma replace1_append: "replace1 old new (xs @ ys) = replace1 old new xs @ replace1 old new ys"
  by (simp add: replace1_def)

lemma replace1_Cons: "replace1 old new (c # cs) = (if c = old then new else [c]) @ replace1 old new cs"
  by (simp add: replace1_def)

lemma escape_Nil: "escape [] quote = []"
  by (simp add: escape_def replace1_Nil Let_def)

lemma escape_Cons: "escape (c # cs) quote = escape_char quote c @ escape cs quote"
  by (simp add: escape_def escape_char_def Let_def replace1_Cons replace1_append replace1_Nil)

lemma unescape_loop_result:
  "map_ok concat (unescape_loop result data) =
   map_ok ((@) (concat result)) (map_ok concat (unescape_loop [] data))"
proof (induction data arbitrary: result rule: length_induct)
  case (1 data)
  show ?case
  proof (cases "cc_search data")
    case None
    then show ?thesis by (simp add: unescape_loop.simps [of _ data])
  next
    case (Some m)
    obtain pre g rest where m: "m = (pre, g, rest)" by (cases m)
    with Some have shorter: "length rest < length data" by (simp add: cc_search_shorter)
    show ?thesis
    proof (cases "decode g")
      case (Inl e)
      with Some m show ?thesis by (simp add: unescape_loop.simps [of _ data])
    next
      case (Inr ch)
      have a: "map_ok concat (unescape_loop (result @ [pre, [ch]]) rest) =
        map_ok ((@) (concat (result @ [pre, [ch]]))) (map_ok concat (unescape_loop [] rest))"
        using "1.IH" shorter by blast
      have b: "map_ok concat (unescape_loop [pre, [ch]] rest) =
        map_ok ((@) (concat [pre, [ch]])) (map_ok concat (unescape_loop [] rest))"
        using "1.IH" shorter by blast
      show ?thesis
        using Some m Inr a b
        by (cases "unescape_loop [] rest") (simp_all add: unescape_loop.simps [of _ data])
    qed
  qed
qed

lemma cc_search_skip:
  "c \<noteq> CHR ''&'' \<Longrightarrow>
   cc_search (c # cs) = (case cc_search cs of None \<Rightarrow> None | Some (pre, g, rest) \<Rightarrow> Some (c # pre, g, rest))"
  by (simp add: cc_match_def)

declare cc_search.simps [simp del]

lemma unescape_skip:
  assumes "c \<noteq> CHR ''&''"
  shows "unescape (c # cs) = map_ok ((#) c) (unescape cs)"
proof (cases "cc_search cs")
  case None
  with assms show ?thesis
    by (simp add: unescape_def cc_search_skip unescape_loop.simps [of "[]"])
next
  case (Some m)
  obtain pre g rest where m: "m = (pre, g, rest)" by (cases m)
  show ?thesis
  proof (cases "decode g")
    case (Inl e)
    with Some m assms show ?thesis
      by (simp add: unescape_def cc_search_skip unescape_loop.simps [of "[]"])
  next
    case (Inr ch)
    have a: "map_ok concat (unescape_loop [c # pre, [ch]] rest) =
        map_ok ((@) (concat [c # pre, [ch]])) (map_ok concat (unescape_loop [] rest))"
      by (rule unescape_loop_result)
    have b: "map_ok concat (unescape_loop [pre, [ch]] rest) =
        map_ok ((@) (concat [pre, [ch]])) (map_ok concat (unescape_loop [] rest))"
      by (rule unescape_loop_result)
    show ?thesis
      using Some m Inr assms a b
      by (cases "unescape_loop [] rest")
         (simp_all add: unescape_def cc_search_skip unescape_loop.simps [of "[]" "c # cs"]
            unescape_loop.simps [of "[]" cs])
  qed
qed

lemma cc_search_entity:
  "nm \<in> {''amp'', ''lt'', ''gt'', ''quot''} \<Longrightarrow>
   cc_search (CHR ''&'' # nm @ CHR '';'' # rest) = Some ([], Group2 nm, rest)"
  by (auto simp: cc_match_def cc_search.simps)

lemma decode_entities:
  "decode (Group2 ''amp'') = Inr (CHR ''&'')"
  "decode (Group2 ''lt'') = Inr (CHR ''<'')"
  "decode (Group2 ''gt'') = Inr (CHR ''>'')"
  "decode (Group2 ''quot'') = Inr (CHR 0x22)"
  by (simp_all add: decode_def unescape_table_def unichr_def char_of_def bit_simps)

lemma unescape_entity:
  assumes "nm \<in> {''amp'', ''lt'', ''gt'', ''quot''}" and d: "decode (Group2 nm) = Inr ch"
  shows "unescape (CHR ''&'' # nm @ CHR '';'' # rest) = map_ok ((#) ch) (unescape rest)"
proof -
  have a: "map_ok concat (unescape_loop [[], [ch]] rest) =
        map_ok ((@) (concat [[], [ch]])) (map_ok concat (unescape_loop [] rest))"
    by (rule unescape_loop_result)
  show ?thesis
    using cc_search_entity [OF assms(1), of rest] d a
    by (cases "unescape_loop [] rest")
       (simp_all add: unescape_def unescape_loop.simps [of "[]" "CHR ''&'' # nm @ CHR '';'' # rest"])
qed

lemma unescape_Nil: "unescape [] = Inr []"
  by (simp add: unescape_def unescape_loop.simps [of "[]" "[]"] cc_search.simps)

lemma unescape_escape_any: "unescape (escape s quote) = Inr s"
proof (induction s)
  case Nil
  show ?case by (simp add: escape_Nil unescape_Nil)
next
  case (Cons c s)
  consider (amp) "c = CHR ''&''" | (lt) "c = CHR ''<''" | (gt) "c = CHR ''>''"
    | (quot) "c = CHR 0x22" "quote" | (plain) "escape_char quote c = [c]" "c \<noteq> CHR ''&''"
    by (cases "c = CHR ''&''"; cases "c = CHR ''<''"; cases "c = CHR ''>''"; cases "c = CHR 0x22"; cases quote)
       (simp_all add: escape_char_def)
  then show ?case
  proof cases
    case amp
    then show ?thesis
      using unescape_entity [of "''amp''" _ "escape s quote"] Cons.IH
      by (simp add: escape_Cons escape_char_def decode_entities)
  next
    case lt
    then show ?thesis
      using unescape_entity [of "''lt''" _ "escape s quote"] Cons.IH
      by (simp add: escape_Cons escape_char_def decode_entities)
  next
    case gt
    then show ?thesis
      using unescape_entity [of "''gt''" _ "escape s quote"] Cons.IH
      by (simp add: escape_Cons escape_char_def decode_entities)
  next
    case quot
    then show ?thesis
      using unescape_entity [of "''quot''" _ "escape s quote"] Cons.IH
      by (simp add: escape_Cons escape_char_def decode_entities)
  next
    case plain
    then show ?thesis
      using unescape_skip [of c "escape s quote"] Cons.IH
      by (simp add: escape_Cons)
  qed
qed


text \<open>
  Claim C5. For every string \<open>s\<close>, \<open>unescape (escape s)\<close> returns \<open>s\<close>: with
  \<open>quote = True\<close> (the default, which also replaces the quotation mark) and with
  \<open>quote = False\<close>. The equation holds for all strings of the model, hence for
  every string inside the limitation the specification states; \<open>escape\<close> is the
  character-wise replacement of the four special characters by their entities.
\<close>

theorem unescape_escape_roundtrip:
  "unescape (escape s True) = Inr s \<and> unescape (escape s False) = Inr s \<and>
   escape s True = concat (map (escape_char True) s)"
proof -
  have "escape s True = concat (map (escape_char True) s)"
    by (induction s) (simp_all add: escape_Nil escape_Cons)
  then show ?thesis
    using unescape_escape_any [of s True] unescape_escape_any [of s False] by blast
qed

section \<open>URL escaping: auxiliary facts\<close>

lemma replace_map_eq: "replace_map =
  [(CHR '';'', ''%3B''), (CHR ''/'', ''%2F''), (CHR ''?'', ''%3F''), (CHR '':'', ''%3A''),
   (CHR ''@'', ''%40''), (CHR ''&'', ''%26''), (CHR ''='', ''%3D''), (CHR ''+'', ''%2B''),
   (CHR ''$'', ''%24''), (CHR '','', ''%2C''), (CHR '' '', ''%20'')]"
  by code_simp

lemma url_escape_Nil: "url_escape [] = []"
  by (simp add: url_escape_def)

lemma url_escape_Cons:
  "url_escape (c # cs) = (case map_of replace_map c of Some r \<Rightarrow> r | None \<Rightarrow> [c]) @ url_escape cs"
  by (simp add: url_escape_def)

lemma url_unescape_skip: "c \<noteq> CHR ''%'' \<Longrightarrow> url_unescape (c # rest) = c # url_unescape rest"
proof (cases rest)
  case Nil
  then show ?thesis by simp
next
  case (Cons a as)
  assume "c \<noteq> CHR ''%''"
  with Cons show ?thesis by (cases as) simp_all
qed

lemma url_roundtrip_char:
  assumes "c \<noteq> CHR ''%''"
  shows "url_unescape ((case map_of replace_map c of Some r \<Rightarrow> r | None \<Rightarrow> [c]) @ rest) = c # url_unescape rest"
proof (cases "map_of replace_map c")
  case None
  with assms show ?thesis by (simp add: url_unescape_skip)
next
  case (Some r)
  then have "(c, r) \<in> set replace_map" by (rule map_of_SomeD)
  then show ?thesis
    using Some
    by (auto simp: replace_map_eq is_hexdigit_def hexval_def char_of_def bit_simps)
qed


lemma url_roundtrip: "CHR ''%'' \<notin> set s \<Longrightarrow> url_unescape (url_escape s) = s"
proof (induction s)
  case Nil
  show ?case by (simp add: url_escape_Nil)
next
  case (Cons c cs)
  then have "c \<noteq> CHR ''%''" and "url_unescape (url_escape cs) = cs"
    by auto
  then show ?case
    by (simp add: url_escape_Cons url_roundtrip_char)
qed

lemma url_escape_char:
  "(case map_of replace_map c of Some r \<Rightarrow> r | None \<Rightarrow> [c]) =
   (if c \<in> set '';/?:@&=+$, ''
    then [CHR ''%'', hexdigit_upper (of_char c div 16), hexdigit_upper (of_char c mod 16)]
    else [c])"
  by (simp add: replace_map_eq hexdigit_upper_def)

text \<open>
  Claim C10. \<open>url_escape\<close> replaces each of the reserved characters
  \<open>; / ? : @ & = + $ ,\<close> and space by a percent sign and the two upper-case
  hexadecimal digits of its code and copies every other character; on a string without
  a percent sign, \<open>url_unescape\<close> undoes it.
\<close>

theorem url_unescape_url_escape:
  "(CHR ''%'' \<notin> set s \<longrightarrow> url_unescape (url_escape s) = s) \<and>
   url_escape s =
     concat (map (\<lambda>c. if c \<in> set '';/?:@&=+$, ''
                        then [CHR ''%'', hexdigit_upper (of_char c div 16), hexdigit_upper (of_char c mod 16)]
                        else [c]) s)"
proof -
  have "url_escape s =
     concat (map (\<lambda>c. if c \<in> set '';/?:@&=+$, ''
                        then [CHR ''%'', hexdigit_upper (of_char c div 16), hexdigit_upper (of_char c mod 16)]
                        else [c]) s)"
    unfolding url_escape_def url_escape_char ..
  then show ?thesis
    using url_roundtrip by blast
qed

theorem url_unescape_url_escape_witness:
  "CHR ''%'' \<notin> set ''a b/c?d=1&e'' \<and>
   url_unescape (url_escape ''a b/c?d=1&e'') = ''a b/c?d=1&e'' \<and>
   url_escape ''a b/c?d=1&e'' = ''a%20b%2Fc%3Fd%3D1%26e''"
proof -
  have a: "CHR ''%'' \<notin> set ''a b/c?d=1&e''"
    by simp
  have b: "url_unescape (url_escape ''a b/c?d=1&e'') = ''a b/c?d=1&e''"
    using url_unescape_url_escape [of "''a b/c?d=1&e''"] a by blast
  have c: "url_escape ''a b/c?d=1&e'' = ''a%20b%2Fc%3Fd%3D1%26e''"
    by (simp add: url_escape_def replace_map_eq)
  from a b c show ?thesis by blast
qed

section \<open>The current tag\<close>

text \<open>
  Claim C9. \<open>get_current\<close> returns the tag of the top frame of the calling context's
  stack whenever a frame is open there. With no frame open (no entry for the context,
  or an empty stack) it raises \<open>ValueError\<close> (\<open>no current context\<close>) exactly when
  no default was passed, and returns the default otherwise.
\<close>

theorem get_current_cases:
  "(frame_open s h \<longrightarrow>
      get_current h dflt s = Inr (Current_tag (tag (last (the (with_contexts s h)))))) \<and>
   (\<not> frame_open s h \<longrightarrow>
      (get_current h dflt s = Inl ValueError \<longleftrightarrow> dflt = None) \<and>
      (\<forall>d. dflt = Some d \<longrightarrow> get_current h dflt s = Inr (Default_value d)))"
  by (auto simp: get_current_def frame_open_def Let_def split: option.splits)

theorem get_current_cases_witness:
  "frame_open (enter 0 7 (enter 0 4 empty_state)) 0 \<and>
   get_current 0 (Some (1::nat)) (enter 0 7 (enter 0 4 empty_state)) = Inr (Current_tag 7) \<and>
   \<not> frame_open (enter 0 7 empty_state) 1 \<and>
   get_current 1 (None :: nat option) (enter 0 7 empty_state) = Inl ValueError \<and>
   get_current 1 (Some (5::nat)) (enter 0 7 empty_state) = Inr (Default_value 5)"
proof -
  have a: "frame_open (enter 0 7 (enter 0 4 empty_state)) 0"
    by (simp add: frame_open_def enter_def empty_state_def)
  have b: "\<not> frame_open (enter 0 7 empty_state) 1"
    by (simp add: frame_open_def enter_def empty_state_def)
  have c: "tag (last (the (with_contexts (enter 0 7 (enter 0 4 empty_state)) 0))) = 7"
    by (simp add: enter_def empty_state_def)
  show ?thesis
    using a b c
      get_current_cases [of "enter 0 7 (enter 0 4 empty_state)" 0 "Some (1::nat)"]
      get_current_cases [of "enter 0 7 empty_state" 1 "None :: nat option"]
      get_current_cases [of "enter 0 7 empty_state" 1 "Some (5::nat)"]
    by simp
qed

section \<open>Item access\<close>

lemma del_slice_out_of_range:
  "list_index (length xs) i = None \<Longrightarrow> del_slice xs i (i + 1) = xs"
  by (auto simp: list_index_def del_slice_def slice_bound_def Let_def split: if_splits)

text \<open>
  Claim C7, as stated, fails for the child half: \<open>delete_attribute\<close> deletes the slice
  \<open>children[key:key+1]\<close>, and deleting a slice never raises. On a node with two
  children the indices \<open>2\<close> and \<open>-3\<close> address no child, and the call returns
  normally with the node as it was.
\<close>

theorem delete_child_absent_counterexample:
  "list_index (length (children node0)) 2 = None \<and> delete_attribute node0 (IntKey 2) = Inr node0 \<and>
   list_index (length (children node0)) (- 3) = None \<and> delete_attribute node0 (IntKey (- 3)) = Inr node0"
  by (simp add: node0_def list_index_def del_slice_def slice_bound_def)

text \<open>
  Claim C7, amended. Deleting with an integer index that addresses no child returns
  normally and leaves the node unchanged; deleting with a string key that is not an
  attribute raises \<open>KeyError\<close> (an \<open>Inl\<close> result: nothing has been assigned, the
  node is the one passed in).
\<close>

theorem delete_attribute_absent:
  "(list_index (length (children self)) i = None \<longrightarrow> delete_attribute self (IntKey i) = Inr self) \<and>
   (map_of (attributes self) k = None \<longrightarrow> delete_attribute self (StrKey k) = Inl KeyError)"
  by (simp add: del_slice_out_of_range)

theorem delete_attribute_absent_witness:
  "list_index (length (children node0)) 5 = None \<and> delete_attribute node0 (IntKey 5) = Inr node0 \<and>
   map_of (attributes node0) ''class'' = None \<and> delete_attribute node0 (StrKey ''class'') = Inl KeyError"
proof -
  have a: "list_index (length (children node0)) 5 = None"
    by (simp add: node0_def list_index_def)
  have b: "map_of (attributes node0) ''class'' = None"
    by (simp add: node0_def)
  show ?thesis
    using a b delete_attribute_absent [of node0 5 "''class''"] by blast
qed

text \<open>
  Claim C8 holds for reading and writing and fails for deleting: \<open>__getitem__\<close> and
  \<open>set_attribute\<close> raise \<open>TypeError\<close> for a key that is neither an integer nor a
  string, but \<open>delete_attribute\<close> has no such branch and hands the key to the
  attribute dict, which raises \<open>KeyError\<close> for a hashable key (\<open>None\<close>, a float, a
  tuple) and \<open>TypeError\<close> only for an unhashable one.
\<close>

theorem invalid_key_type:
  "getitem self (OtherKey k) = Inl TypeError \<and>
   set_attribute self (Other_at k v) = Inl TypeError \<and>
   delete_attribute self (OtherKey Unhashable) = Inl TypeError \<and>
   delete_attribute self (OtherKey Hashable) = Inl KeyError"
  by simp

section \<open>Propagating the document reference\<close>

text \<open>
  Claim C6 fails on the code: the loop of \<open>setdocument\<close> leaves at the first child
  that is not a tag (\<open>return\<close>, not \<open>continue\<close>), so tags after a text child keep
  their old document. In the run below \<open>doc = html()\<close>, \<open>top = div()\<close>,
  \<open>top.setdocument(doc)\<close>, \<open>g1 = p()\<close>, \<open>g2 = p()\<close>,
  \<open>c = div(g1, 'text', g2)\<close>, \<open>top.add(c)\<close>; the objects get the references
  0 to 4 in this order. Afterwards \<open>c\<close> and \<open>g1\<close> carry the document of \<open>top\<close>,
  and \<open>g2\<close>, the child after the text, does not.
\<close>

theorem setdocument_stops_at_text:
  "map_ok (\<lambda>s. map (\<lambda>n. (class_name (klass n), children n, parent n, document n)) (heap s))
     (setdocument_example 5) =
   Inr [(''html'', [], None, None),
        (''div'', [Tag 4], None, Some 0),
        (''p'', [], Some 4, Some 0),
        (''p'', [], Some 4, None),
        (''div'', [Tag 2, Text ''text'', Tag 3], Some 1, Some 0)]"
  by code_simp

section \<open>The store under the context operations\<close>

lemma heap_update_top_frame [simp]: "heap (update_top_frame tid f s) = heap s"
  by (simp add: update_top_frame_def split: option.splits)

lemma heap_add_to_ctx [simp]: "heap (add_to_ctx tid r s) = heap s"
  by (simp add: add_to_ctx_def)

lemma heap_update_node [simp]: "heap (update_node r f s) = (heap s)[r := f (heap s ! r)]"
  by (simp add: update_node_def)

section \<open>The rendering example\<close>

lemma clean_cls: "clean_pair ''cls'' (KwStr ''hi'') = Inr (''class'', Str ''hi'')"
  by (simp add: clean_pair_def clean_attribute_def shorthand_def startswith_def)

lemma build_example_heap:
  "\<exists>s'. build_example (Suc n) tid s = Inr (length (heap s) + 2, s') \<and>
     heap s' = heap s @
       [\<lparr>klass = plain_class ''p'', attributes = [], children = [Text ''hello''],
           parent = Some (length (heap s) + 2), document = None, is_inline = False, is_pretty = True\<rparr>,
        \<lparr>klass = plain_class ''span'', attributes = [(''class'', Str ''hi'')], children = [Text ''world''],
           parent = Some (length (heap s) + 2), document = None, is_inline = False, is_pretty = True\<rparr>,
        \<lparr>klass = plain_class ''div'', attributes = [],
           children = [Tag (length (heap s)), Tag (length (heap s) + 1)],
           parent = None, document = None, is_inline = False, is_pretty = True\<rparr>]"
  by (simp add: build_example_def init_def add_def Let_def clean_cls add_tag_def plain_class_def
        escape_def replace1_def nth_append list_update_append)

text \<open>
  Claim C1. In any state of the store and of the context stack, and with room for one
  nested call while building and two while rendering, the tree built by
  \<open>div(p("hello"), span("world", cls="hi"))\<close> from classes with the default flags
  renders with the default options (\<open>indent = "  "\<close>, \<open>pretty = True\<close>,
  \<open>xhtml = False\<close>) to exactly the four lines of the specification.
\<close>

theorem render_example:
  "\<exists>d s'. build_example (Suc n) tid s = Inr (d, s') \<and>
     render (Suc (Suc m)) (heap s') d ''  '' True False =
       Inr ''<div>\<newline>  <p>hello</p>\<newline>  <span class=\"hi\">world</span>\<newline></div>''"
proof -
  obtain s' where b: "build_example (Suc n) tid s = Inr (length (heap s) + 2, s')"
    and h: "heap s' = heap s @
       [\<lparr>klass = plain_class ''p'', attributes = [], children = [Text ''hello''],
           parent = Some (length (heap s) + 2), document = None, is_inline = False, is_pretty = True\<rparr>,
        \<lparr>klass = plain_class ''span'', attributes = [(''class'', Str ''hi'')], children = [Text ''world''],
           parent = Some (length (heap s) + 2), document = None, is_inline = False, is_pretty = True\<rparr>,
        \<lparr>klass = plain_class ''div'', attributes = [],
           children = [Tag (length (heap s)), Tag (length (heap s) + 1)],
           parent = None, document = None, is_inline = False, is_pretty = True\<rparr>]"
    using build_example_heap by blast
  have "render (Suc (Suc m)) (heap s') (length (heap s) + 2) ''  '' True False =
       Inr ''<div>\<newline>  <p>hello</p>\<newline>  <span class=\"hi\">world</span>\<newline></div>''"
    by (simp add: h render_def nth_append tag_name_def plain_class_def render_attributes_def
          render_attribute_def times_def escape_def replace1_def Let_def)
  with b show ?thesis by blast
qed

section \<open>Boolean attributes\<close>

lemma render_children_texts:
  "render_children limit h (map Text ts) inline sb indent_level indent_str pretty xhtml =
   Inr (sb @ ts, inline)"
  by (induction ts arbitrary: sb) simp_all

lemma add_args_texts:
  "self < length (heap s) \<Longrightarrow>
   add_args limit tid self (map AString texts) s =
   Inr (s\<lparr>heap := (heap s)[self := (heap s ! self)
           \<lparr>children := children (heap s ! self) @ map (\<lambda>t. Text (escape t True)) texts\<rparr>]\<rparr>)"
proof (induction texts arbitrary: s)
  case Nil
  then show ?case by simp
next
  case (Cons t texts)
  then show ?case by (simp add: update_node_def)
qed

lemma clean_selected: "clean_pair ''selected'' v =
   Inr (''selected'', case v of KwBool True \<Rightarrow> Str ''selected'' | KwBool False \<Rightarrow> PyFalse | KwStr s \<Rightarrow> Str s)"
  by (simp add: clean_pair_def clean_attribute_def shorthand_def startswith_def)

lemma init_selected:
  "init limit tid cls (map AString texts) [(''selected'', KwBool b)] s =
   Inr (length (heap s),
        add_to_ctx tid (length (heap s))
          (s\<lparr>heap := heap s @ [selected_tag cls texts (if b then Str ''selected'' else PyFalse)]\<rparr>))"
  by (cases texts) (simp_all add: init_def Let_def add_def add_args_texts clean_selected selected_tag_def update_node_def)


lemma render_children_texts':
  "render_children limit h (map (\<lambda>t. Text (f t)) ts) inline sb indent_level indent_str pretty xhtml =
   Inr (sb @ map f ts, inline)"
  by (induction ts arbitrary: sb) simp_all

lemma selected_tag_fields:
  "klass (selected_tag cls texts v) = cls"
  "attributes (selected_tag cls texts v) = [(''selected'', v)]"
  "children (selected_tag cls texts v) = map (\<lambda>t. Text (escape t True)) texts"
  "is_pretty (selected_tag cls texts v) = class_is_pretty cls"
  by (simp_all add: selected_tag_def)

lemma render_selected_tag:
  assumes "h ! r = selected_tag cls texts v"
  shows "render (Suc m) h r indent pretty xhtml =
     bind_err (tag_name (h ! r)) (\<lambda>name.
       Inr (''<'' @ name @ concat (render_attribute (''selected'', v)) @
            (if class_is_single cls then (if xhtml then '' />'' else ''>'')
             else ''>'' @ concat (map (\<lambda>t. escape t True) texts) @ ''</'' @ name @ ''>'')))"
  by (cases "tag_name (selected_tag cls texts v)")
     (simp_all add: render_def assms Let_def render_attributes_def render_children_texts' selected_tag_fields)

text \<open>
  Claim C3. A tag of any class, constructed in any state with text children and the
  keyword \<open>selected=True\<close>, stores the string \<open>selected\<close> under the name
  \<open>selected\<close> and renders, for every choice of the options, with
  \<open>selected="selected"\<close> after the tag name. Constructed with
  \<open>selected=False\<close> it stores \<open>False\<close>, the attribute loop emits nothing,
  and the output is the tag without any attribute.
\<close>

theorem boolean_attribute:
  "(\<exists>s'. init limit tid cls (map AString texts) [(''selected'', KwBool True)] s = Inr (length (heap s), s') \<and>
      getitem (heap s' ! length (heap s)) (StrKey ''selected'') = Inr (AttrItem (Str ''selected'')) \<and>
      render (Suc m) (heap s') (length (heap s)) indent pretty xhtml =
        bind_err (tag_name (heap s' ! length (heap s))) (\<lambda>name.
          Inr (''<'' @ name @ '' selected=\"selected\"'' @
               (if class_is_single cls then (if xhtml then '' />'' else ''>'')
                else ''>'' @ concat (map (\<lambda>t. escape t True) texts) @ ''</'' @ name @ ''>'')))) \<and>
   (\<exists>s'. init limit tid cls (map AString texts) [(''selected'', KwBool False)] s = Inr (length (heap s), s') \<and>
      getitem (heap s' ! length (heap s)) (StrKey ''selected'') = Inr (AttrItem PyFalse) \<and>
      render_attributes (attributes (heap s' ! length (heap s))) = [] \<and>
      render (Suc m) (heap s') (length (heap s)) indent pretty xhtml =
        bind_err (tag_name (heap s' ! length (heap s))) (\<lambda>name.
          Inr (''<'' @ name @
               (if class_is_single cls then (if xhtml then '' />'' else ''>'')
                else ''>'' @ concat (map (\<lambda>t. escape t True) texts) @ ''</'' @ name @ ''>''))))"
proof -
  have t: "(heap s @ [selected_tag cls texts (Str ''selected'')]) ! length (heap s) = selected_tag cls texts (Str ''selected'')"
    by simp
  have f: "(heap s @ [selected_tag cls texts PyFalse]) ! length (heap s) = selected_tag cls texts PyFalse"
    by simp
  have a: "concat (render_attribute (''selected'', Str ''selected'')) = '' selected=\"selected\"''"
    by (simp add: render_attribute_def escape_def replace1_def)
  have b: "concat (render_attribute (''selected'', PyFalse)) = []"
    by (simp add: render_attribute_def)
  have c: "render_attributes [(''selected'', PyFalse)] = []"
    by (simp add: render_attributes_def render_attribute_def)
  have true_case: "render (Suc m) (heap s @ [selected_tag cls texts (Str ''selected'')]) (length (heap s)) indent pretty xhtml =
        bind_err (tag_name (selected_tag cls texts (Str ''selected''))) (\<lambda>name.
          Inr (''<'' @ name @ '' selected=\"selected\"'' @
               (if class_is_single cls then (if xhtml then '' />'' else ''>'')
                else ''>'' @ concat (map (\<lambda>t. escape t True) texts) @ ''</'' @ name @ ''>'')))"
    using render_selected_tag [OF t, of m indent pretty xhtml] by (simp only: a t)
  have false_case: "render (Suc m) (heap s @ [selected_tag cls texts PyFalse]) (length (heap s)) indent pretty xhtml =
        bind_err (tag_name (selected_tag cls texts PyFalse)) (\<lambda>name.
          Inr (''<'' @ name @
               (if class_is_single cls then (if xhtml then '' />'' else ''>'')
                else ''>'' @ concat (map (\<lambda>t. escape t True) texts) @ ''</'' @ name @ ''>'')))"
    using render_selected_tag [OF f, of m indent pretty xhtml] by (simp only: b f append_Nil)
  show ?thesis
    by (simp only: init_selected if_True if_False, simp add: true_case false_case c selected_tag_fields)
qed

theorem boolean_attribute_witness:
  "(\<exists>s'. init 1 0 (plain_class ''option'') [AString ''one''] [(''selected'', KwBool True)] empty_state = Inr (0, s') \<and>
      render 1 (heap s') 0 ''  '' True False = Inr ''<option selected=\"selected\">one</option>'') \<and>
   (\<exists>s'. init 1 0 (plain_class ''option'') [AString ''one''] [(''selected'', KwBool False)] empty_state = Inr (0, s') \<and>
      render 1 (heap s') 0 ''  '' True False = Inr ''<option>one</option>'')"
proof -
  let ?c = "plain_class ''option''"
  note inst = boolean_attribute [of 1 0 ?c "[''one'']" empty_state 0 "''  ''" True False]
  have l: "length (heap empty_state) = 0"
    by (simp add: empty_state_def)
  obtain s1 where i1: "init 1 0 ?c [AString ''one''] [(''selected'', KwBool True)] empty_state = Inr (0, s1)"
    and r1: "render 1 (heap s1) 0 ''  '' True False =
        bind_err (tag_name (heap s1 ! 0)) (\<lambda>name.
          Inr (''<'' @ name @ '' selected=\"selected\"'' @
               (if class_is_single ?c then (if False then '' />'' else ''>'')
                else ''>'' @ concat (map (\<lambda>t. escape t True) [''one'']) @ ''</'' @ name @ ''>'')))"
    using inst unfolding l by auto
  obtain s2 where i2: "init 1 0 ?c [AString ''one''] [(''selected'', KwBool False)] empty_state = Inr (0, s2)"
    and r2: "render 1 (heap s2) 0 ''  '' True False =
        bind_err (tag_name (heap s2 ! 0)) (\<lambda>name.
          Inr (''<'' @ name @
               (if class_is_single ?c then (if False then '' />'' else ''>'')
                else ''>'' @ concat (map (\<lambda>t. escape t True) [''one'']) @ ''</'' @ name @ ''>'')))"
    using inst unfolding l by auto
  have n1: "tag_name (heap s1 ! 0) = Inr ''option''"
    using i1 init_selected [of 1 0 ?c "[''one'']" True empty_state]
    by (simp add: l tag_name_def selected_tag_fields plain_class_def) (simp add: empty_state_def selected_tag_def tag_name_def)
  have n2: "tag_name (heap s2 ! 0) = Inr ''option''"
    using i2 init_selected [of 1 0 ?c "[''one'']" False empty_state]
    by (simp add: l tag_name_def selected_tag_fields plain_class_def) (simp add: empty_state_def selected_tag_def tag_name_def)
  have "render 1 (heap s1) 0 ''  '' True False = Inr ''<option selected=\"selected\">one</option>''"
    unfolding r1 n1 by (simp add: plain_class_def escape_def replace1_def)
  moreover have "render 1 (heap s2) 0 ''  '' True False = Inr ''<option>one</option>''"
    unfolding r2 n2 by (simp add: plain_class_def escape_def replace1_def)
  ultimately show ?thesis
    using i1 i2 by blast
qed

section \<open>Attribute order in the output\<close>

lemma map_of_dict_set: "map_of (dict_set d k v) = (map_of d)(k \<mapsto> v)"
  by (induction d) (auto simp: fun_eq_iff)

lemma keys_dict_set:
  "map fst (dict_set d k v) = (if k \<in> fst ` set d then map fst d else map fst d @ [k])"
proof (induction d)
  case Nil
  show ?case by simp
next
  case (Cons kv d)
  then show ?case by (cases kv) force
qed

lemma distinct_dict_set: "distinct (map fst d) \<Longrightarrow> distinct (map fst (dict_set d k v))"
  by (simp add: keys_dict_set)

lemma set_items_attrs:
  "\<exists>self'. set_items self (map (\<lambda>(k, v). Attr_at k v) kvs) = Inr self' \<and>
     map_of (attributes self') = map_of (attributes self) ++ map_of (rev kvs) \<and>
     (distinct (map fst (attributes self)) \<longrightarrow> distinct (map fst (attributes self')))"
proof (induction kvs arbitrary: self)
  case Nil
  show ?case by simp
next
  case (Cons kv kvs)
  obtain k v where kv: "kv = (k, v)" by (cases kv)
  let ?n = "self\<lparr>attributes := dict_set (attributes self) k v\<rparr>"
  obtain self' where s: "set_items ?n (map (\<lambda>(k, v). Attr_at k v) kvs) = Inr self'"
    and m: "map_of (attributes self') = map_of (attributes ?n) ++ map_of (rev kvs)"
    and d: "distinct (map fst (attributes ?n)) \<longrightarrow> distinct (map fst (attributes self'))"
    using Cons.IH [of ?n] by blast
  have "map_of (attributes self') = map_of (attributes self) ++ map_of (rev (kv # kvs))"
    using m by (simp add: kv map_of_dict_set fun_eq_iff map_add_def split: option.splits)
  moreover have "distinct (map fst (attributes self)) \<longrightarrow> distinct (map fst (attributes self'))"
    using d by (simp add: distinct_dict_set)
  ultimately show ?case
    using s by (simp add: kv)
qed

lemma distinct_keys_sorted:
  assumes "distinct (map fst d)"
  shows "sorted_wrt (<) (map fst (sort_key fst d))"
proof -
  have "distinct (map fst (sort_key fst d))"
    using assms by (simp add: distinct_map)
  moreover have "sorted (map fst (sort_key fst d))"
    by (rule sorted_sort_key)
  ultimately show ?thesis
    by (simp add: strict_sorted_iff)
qed

lemma emitted_names_sorted:
  assumes "distinct (map fst d)"
  shows "sorted_wrt (<) (emitted_names d)"
proof -
  have "sorted_wrt (\<lambda>x y. fst x < fst y) (sort_key fst d)"
    using distinct_keys_sorted [OF assms] by (simp add: sorted_wrt_map)
  then have "sorted_wrt (\<lambda>x y. fst x < fst y) (filter (\<lambda>kv. snd kv \<noteq> PyFalse) (sort_key fst d))"
    by (rule sorted_wrt_filter)
  then show ?thesis
    by (simp add: emitted_names_def sorted_wrt_map)
qed

lemma set_emitted_names:
  assumes "distinct (map fst d)"
  shows "set (emitted_names d) = {k. \<exists>v. map_of d k = Some (Str v)}"
proof -
  have "\<And>k. (k \<in> set (emitted_names d)) = (\<exists>v. (k, Str v) \<in> set d)"
  proof -
    fix k
    have "(k \<in> set (emitted_names d)) = (\<exists>w. (k, w) \<in> set d \<and> w \<noteq> PyFalse)"
      by (force simp: emitted_names_def)
    also have "\<dots> = (\<exists>v. (k, Str v) \<in> set d)"
      by (metis attr_value.exhaust attr_value.distinct(1))
    finally show "(k \<in> set (emitted_names d)) = (\<exists>v. (k, Str v) \<in> set d)" .
  qed
  then show ?thesis
    using assms by auto
qed

lemma emitted_names_unique:
  assumes "distinct (map fst d)"
  shows "emitted_names d = sorted_list_of_set {k. \<exists>v. map_of d k = Some (Str v)}"
proof -
  have s: "sorted_wrt (<) (emitted_names d)"
    by (rule emitted_names_sorted [OF assms])
  have "sorted_list_of_set (set (emitted_names d)) = emitted_names d"
    using s by (simp add: strict_sorted_iff sorted_list_of_set.idem_if_sorted_distinct)
  then show ?thesis
    by (simp add: set_emitted_names [OF assms])
qed

lemma render_attributes_names:
  assumes "distinct (map fst d)"
  shows "render_attributes d =
     map (\<lambda>k. '' '' @ k @ ''=\"'' @ escape (case map_of d k of Some (Str v) \<Rightarrow> v | _ \<Rightarrow> []) True @ ''\"'')
       (emitted_names d)"
proof -
  have a: "\<And>xs. concat (map render_attribute xs) =
      map (\<lambda>kv. '' '' @ fst kv @ ''=\"'' @ escape (case snd kv of Str v \<Rightarrow> v | PyFalse \<Rightarrow> []) True @ ''\"'')
        (filter (\<lambda>kv. snd kv \<noteq> PyFalse) xs)"
  proof -
    fix xs :: "(string \<times> attr_value) list"
    show "concat (map render_attribute xs) =
      map (\<lambda>kv. '' '' @ fst kv @ ''=\"'' @ escape (case snd kv of Str v \<Rightarrow> v | PyFalse \<Rightarrow> []) True @ ''\"'')
        (filter (\<lambda>kv. snd kv \<noteq> PyFalse) xs)"
      by (induction xs) (auto simp: render_attribute_def split: attr_value.splits)
  qed
  have b: "\<And>kv. kv \<in> set d \<Longrightarrow> map_of d (fst kv) = Some (snd kv)"
    using assms by (simp add: map_of_eq_Some_iff [OF assms])
  show ?thesis
    unfolding render_attributes_def a emitted_names_def map_map
    by (rule map_cong) (auto simp: b split: attr_value.splits)
qed


lemma render_extends:
  "render_node limit h self sb indent_level indent_str pretty xhtml = Inr out \<Longrightarrow> \<exists>ys. out = sb @ ys"
  "render_children limit h cs inline sb indent_level indent_str pretty xhtml = Inr (out, inl) \<Longrightarrow>
     \<exists>ys. out = sb @ ys"
proof (induction limit h self sb indent_level indent_str pretty xhtml
         and limit h cs inline sb indent_level indent_str pretty xhtml
         arbitrary: out and out inl rule: render_node_render_children.induct)
  case (1 h self sb indent_level indent_str pretty xhtml)
  then show ?case by simp
next
  case (2 limit h self sb indent_level indent_str pretty xhtml)
  show ?case
  proof (cases "tag_name (h ! self)")
    case (Inl e)
    with "2.prems" show ?thesis by (simp add: Let_def)
  next
    case (Inr name)
    let ?sb1 = "sb @ [''<'', name] @ render_attributes (attributes (h ! self))
                  @ [if class_is_single (klass (h ! self)) \<and> xhtml then '' />'' else ''>'']"
    show ?thesis
    proof (cases "class_is_single (klass (h ! self))")
      case True
      with "2.prems" Inr show ?thesis by (auto simp: Let_def)
    next
      case False
      from "2.prems" Inr False obtain sb2 inline where
        rc: "render_children limit h (children (h ! self)) True ?sb1 (indent_level + 1) indent_str
               (pretty \<and> is_pretty (h ! self)) xhtml = Inr (sb2, inline)"
        and out: "out = (if (pretty \<and> is_pretty (h ! self)) \<and> \<not> inline
                         then sb2 @ [[CHR 0x0A], times indent_str indent_level] else sb2) @ [''</'', name, ''>'']"
        by (auto simp: Let_def split: sum.splits)
      from "2.IH" [OF refl refl Inr refl False rc] obtain ys where "sb2 = ?sb1 @ ys"
        by blast
      with out show ?thesis by auto
    qed
  qed
next
  case (3 limit h inline sb indent_level indent_str pretty xhtml)
  then show ?case by simp
next
  case (4 limit h t cs inline sb indent_level indent_str pretty xhtml)
  from "4.IH" [OF "4.prems" [simplified]] show ?case by auto
next
  case (5 limit h c cs inline sb indent_level indent_str pretty xhtml)
  let ?break = "pretty \<and> \<not> is_inline (h ! c)"
  let ?sb1 = "if ?break then sb @ [[CHR 0x0A], times indent_str indent_level] else sb"
  from "5.prems" obtain sb2 where
    rn: "render_node limit h c ?sb1 indent_level indent_str pretty xhtml = Inr sb2"
    and rc: "render_children limit h cs (inline \<and> \<not> ?break) sb2 indent_level indent_str pretty xhtml = Inr (out, inl)"
    by (auto simp: Let_def split: sum.splits)
  from "5.IH"(1) [OF refl refl rn] obtain ys where a: "sb2 = ?sb1 @ ys" by blast
  from "5.IH"(2) [OF refl refl rn rc] obtain zs where b: "out = sb2 @ zs" by blast
  from a b show ?case by auto
qed

lemma render_node_open_tag:
  assumes "render_node limit h self sb indent_level indent_str pretty xhtml = Inr out"
  shows "\<exists>name rest. tag_name (h ! self) = Inr name \<and>
           out = sb @ [''<'', name] @ render_attributes (attributes (h ! self)) @ rest"
proof (cases limit)
  case 0
  with assms show ?thesis by simp
next
  case (Suc n)
  show ?thesis
  proof (cases "tag_name (h ! self)")
    case (Inl e)
    with assms Suc show ?thesis by (simp add: Let_def)
  next
    case (Inr name)
    let ?sb1 = "sb @ [''<'', name] @ render_attributes (attributes (h ! self))
                  @ [if class_is_single (klass (h ! self)) \<and> xhtml then '' />'' else ''>'']"
    show ?thesis
    proof (cases "class_is_single (klass (h ! self))")
      case True
      with assms Suc Inr show ?thesis by (auto simp: Let_def)
    next
      case False
      from assms Suc Inr False obtain sb2 inline where
        rc: "render_children n h (children (h ! self)) True ?sb1 (indent_level + 1) indent_str
               (pretty \<and> is_pretty (h ! self)) xhtml = Inr (sb2, inline)"
        and out: "out = (if (pretty \<and> is_pretty (h ! self)) \<and> \<not> inline
                         then sb2 @ [[CHR 0x0A], times indent_str indent_level] else sb2) @ [''</'', name, ''>'']"
        by (auto simp: Let_def split: sum.splits)
      from render_extends(2) [OF rc] obtain ys where "sb2 = ?sb1 @ ys"
        by blast
      with out Inr show ?thesis by auto
    qed
  qed
qed


text \<open>
  Claim C4. Start from a node whose attribute dict has distinct keys (every dict has)
  and perform any sequence of assignments \<open>self[k] = v\<close> with string keys. The
  attribute loop of \<open>_render\<close> then emits one piece \<open>k="escaped v"\<close> for each name
  whose value is not \<open>False\<close>, in strictly ascending order of the names: the emitted
  names are the sorted list of the set of these names, so the pieces depend on the final
  mapping only and not on the order of insertion. In every successful \<open>_render\<close> of
  the node the pieces follow \<open><\<close> and the tag name directly.
\<close>

theorem attributes_sorted:
  assumes "distinct (map fst (attributes self))"
  shows "\<exists>self'. set_items self (map (\<lambda>(k, v). Attr_at k v) kvs) = Inr self' \<and>
     map_of (attributes self') = map_of (attributes self) ++ map_of (rev kvs) \<and>
     sorted_wrt (<) (emitted_names (attributes self')) \<and>
     emitted_names (attributes self') =
       sorted_list_of_set {k. \<exists>v. map_of (attributes self') k = Some (Str v)} \<and>
     render_attributes (attributes self') =
       map (\<lambda>k. '' '' @ k @ ''=\"'' @
                 escape (case map_of (attributes self') k of Some (Str v) \<Rightarrow> v | _ \<Rightarrow> []) True @ ''\"'')
         (emitted_names (attributes self')) \<and>
     (\<forall>kvs2 self2. set_items self (map (\<lambda>(k, v). Attr_at k v) kvs2) = Inr self2 \<and>
          map_of (attributes self2) = map_of (attributes self') \<longrightarrow>
          render_attributes (attributes self2) = render_attributes (attributes self')) \<and>
     (\<forall>limit h r sb indent_level indent_str pretty xhtml out.
          h ! r = self' \<and> render_node limit h r sb indent_level indent_str pretty xhtml = Inr out \<longrightarrow>
          (\<exists>name rest. out = sb @ [''<'', name] @ render_attributes (attributes self') @ rest))"
proof -
  obtain self' where s: "set_items self (map (\<lambda>(k, v). Attr_at k v) kvs) = Inr self'"
    and m: "map_of (attributes self') = map_of (attributes self) ++ map_of (rev kvs)"
    and d: "distinct (map fst (attributes self'))"
    using set_items_attrs [of self kvs] assms by blast
  have order_free: "render_attributes (attributes self2) = render_attributes (attributes self')"
    if "set_items self (map (\<lambda>(k, v). Attr_at k v) kvs2) = Inr self2"
      and "map_of (attributes self2) = map_of (attributes self')" for kvs2 self2
  proof -
    have "distinct (map fst (attributes self2))"
      using set_items_attrs [of self kvs2] assms that(1) by auto
    then show ?thesis
      using d that(2)
      by (simp add: render_attributes_names emitted_names_unique)
  qed
  have open_tag: "\<exists>name rest. out = sb @ [''<'', name] @ render_attributes (attributes self') @ rest"
    if "h ! r = self'" and "render_node limit h r sb indent_level indent_str pretty xhtml = Inr out"
    for limit h r sb indent_level indent_str pretty xhtml out
    using render_node_open_tag [OF that(2)] that(1) by auto
  show ?thesis
    using s m emitted_names_sorted [OF d] emitted_names_unique [OF d] render_attributes_names [OF d]
      order_free open_tag
    by blast
qed


theorem attributes_sorted_witness:
  "distinct (map fst (attributes node0)) \<and>
   (\<exists>self'. set_items node0
        [Attr_at ''title'' (Str ''t''), Attr_at ''class'' (Str ''c''), Attr_at ''hidden'' PyFalse,
         Attr_at ''id'' (Str ''y'')] = Inr self' \<and>
      attributes self' =
        [(''id'', Str ''y''), (''title'', Str ''t''), (''class'', Str ''c''), (''hidden'', PyFalse)] \<and>
      sorted_wrt (<) (emitted_names (attributes self')) \<and>
      render_attributes (attributes self') = ['' class=\"c\"'', '' id=\"y\"'', '' title=\"t\"''])"
proof -
  let ?kvs = "[(''title'', Str ''t''), (''class'', Str ''c''), (''hidden'', PyFalse), (''id'', Str ''y'')]"
  have d: "distinct (map fst (attributes node0))"
    by (simp add: node0_def)
  obtain self' where s: "set_items node0 (map (\<lambda>(k, v). Attr_at k v) ?kvs) = Inr self'"
    and o: "sorted_wrt (<) (emitted_names (attributes self'))"
    using attributes_sorted [OF d, of ?kvs] by blast
  from s have a: "attributes self' =
        [(''id'', Str ''y''), (''title'', Str ''t''), (''class'', Str ''c''), (''hidden'', PyFalse)]"
    by (auto simp: node0_def)
  have "render_attributes (attributes self') = ['' class=\"c\"'', '' id=\"y\"'', '' title=\"t\"'']"
    unfolding a by (simp add: render_attributes_def render_attribute_def escape_def replace1_def)
  with d s o a show ?thesis
    by simp
qed

section \<open>Scoped construction\<close>

lemma child_ok_mono: "child_ok P c \<Longrightarrow> (\<And>z. P z \<Longrightarrow> Q z) \<Longrightarrow> child_ok Q c"
  by (cases c) simp_all

lemma list_all_child_ok_mono:
  "list_all (child_ok P) cs \<Longrightarrow> (\<And>z. P z \<Longrightarrow> Q z) \<Longrightarrow> list_all (child_ok Q) cs"
  by (induction cs) (auto intro: child_ok_mono)

lemma tagless_child_ok:
  "list_all (child_ok (\<lambda>u. False)) cs \<Longrightarrow> list_all (child_ok Q) cs"
  by (erule list_all_child_ok_mono) simp

lemma erase_doc_update: "map erase_doc (h[r := (h ! r)\<lparr>document := d\<rparr>]) = map erase_doc h"
proof (cases "r < length h")
  case True
  have "erase_doc ((h ! r)\<lparr>document := d\<rparr>) = erase_doc (h ! r)"
    by (simp add: erase_doc_def)
  with True show ?thesis
    by (simp add: map_update list_update_same_conv)
next
  case False
  then show ?thesis by (simp add: list_update_beyond)
qed

lemma setdocument_erase:
  "setdocument limit h r doc = Inr h' \<Longrightarrow> map erase_doc h' = map erase_doc h"
  "setdocument_children limit h cs doc = Inr h' \<Longrightarrow> map erase_doc h' = map erase_doc h"
proof (induction limit h r doc and limit h cs doc arbitrary: h' and h'
        rule: setdocument_setdocument_children.induct)
  case (1 h self doc)
  then show ?case by simp
next
  case (2 limit h self doc)
  show ?case
  proof (cases "document (h ! self) \<noteq> doc")
    case True
    with "2.prems" have "setdocument_children limit (h[self := (h ! self)\<lparr>document := doc\<rparr>])
        (children (h ! self)) doc = Inr h'"
      by simp
    from "2.IH" [OF True this] show ?thesis
      by (simp add: erase_doc_update)
  next
    case False
    with "2.prems" show ?thesis by simp
  qed
next
  case (3 limit h doc)
  then show ?case by simp
next
  case (4 limit h t cs doc)
  then show ?case by simp
next
  case (5 limit h i cs doc)
  from "5.prems" obtain h1 where a: "setdocument limit h i doc = Inr h1"
    and b: "setdocument_children limit h1 cs doc = Inr h'"
    by (auto split: sum.splits)
  from "5.IH"(1) [OF a] "5.IH"(2) [OF a b] show ?case by simp
qed

lemma erased_children:
  assumes "map erase_doc h' = map erase_doc h" and "r < length h"
  shows "children (h' ! r) = children (h ! r)"
proof -
  have l: "length h' = length h"
    using assms(1) by (metis length_map)
  have "erase_doc (h' ! r) = erase_doc (h ! r)"
    using assms l by (metis nth_map)
  then have "children (erase_doc (h' ! r)) = children (erase_doc (h ! r))"
    by simp
  then show ?thesis
    by (simp add: erase_doc_def)
qed

lemma depth_within_erased:
  assumes "map erase_doc h' = map erase_doc h"
  shows "depth_within h' k = depth_within h k"
proof (induction k)
  case 0
  show ?case by (simp add: fun_eq_iff)
next
  case (Suc k)
  have l: "length h' = length h"
    using assms by (metis length_map)
  show ?case
  proof (rule ext)
    fix r
    show "depth_within h' (Suc k) r = depth_within h (Suc k) r"
    proof (cases "r < length h")
      case True
      then show ?thesis
        using Suc erased_children [OF assms True] l by simp
    next
      case False
      then show ?thesis using l by simp
    qed
  qed
qed

lemma setdocument_succeeds:
  "depth_within h limit r \<Longrightarrow> \<exists>h'. setdocument limit h r doc = Inr h'"
  "list_all (child_ok (depth_within h limit)) cs \<Longrightarrow>
     \<exists>h'. setdocument_children limit h cs doc = Inr h'"
proof (induction limit h r doc and limit h cs doc rule: setdocument_setdocument_children.induct)
  case (1 h self doc)
  then show ?case by simp
next
  case (2 limit h self doc)
  show ?case
  proof (cases "document (h ! self) \<noteq> doc")
    case True
    let ?h = "h[self := (h ! self)\<lparr>document := doc\<rparr>]"
    have e: "map erase_doc ?h = map erase_doc h"
      by (rule erase_doc_update)
    have "list_all (child_ok (depth_within ?h limit)) (children (h ! self))"
      using "2.prems" unfolding depth_within_erased [OF e] by simp
    from "2.IH" [OF True this] True show ?thesis by simp
  next
    case False
    then show ?thesis by simp
  qed
next
  case (3 limit h doc)
  then show ?case by simp
next
  case (4 limit h t cs doc)
  then show ?case by simp
next
  case (5 limit h i cs doc)
  from "5.prems" have di: "depth_within h limit i"
    and dcs: "list_all (child_ok (depth_within h limit)) cs"
    by simp_all
  from "5.IH"(1) [OF di] obtain h1 where a: "setdocument limit h i doc = Inr h1"
    by blast
  have e: "map erase_doc h1 = map erase_doc h"
    by (rule setdocument_erase(1) [OF a])
  have "list_all (child_ok (depth_within h1 limit)) cs"
    using dcs unfolding depth_within_erased [OF e] by simp
  from "5.IH"(2) [OF a this] a show ?case by simp
qed

lemma length_attach [simp]: "length (attach h self obj) = length h"
  by (simp add: attach_def Let_def)

lemma erase_doc_fields [simp]:
  "children (erase_doc n) = children n"
  "parent (erase_doc n) = parent n"
  "klass (erase_doc n) = klass n"
  "attributes (erase_doc n) = attributes n"
  "erase_doc (erase_doc n) = erase_doc n"
  "erase_doc (n\<lparr>children := cs\<rparr>) = (erase_doc n)\<lparr>children := cs\<rparr>"
  "erase_doc (n\<lparr>parent := p\<rparr>) = (erase_doc n)\<lparr>parent := p\<rparr>"
  by (simp_all add: erase_doc_def)

lemma erase_attach:
  assumes "self < length h" and "obj < length h"
  shows "map erase_doc (attach h self obj) = attach (map erase_doc h) self obj"
  using assms by (simp add: attach_def Let_def map_update nth_list_update)

lemma depth_within_erase: "depth_within (map erase_doc h) k = depth_within h k"
  by (rule depth_within_erased) simp

lemma add_tag_effect:
  assumes "self < length (heap s)" and "obj < length (heap s)"
    and "depth_within (attach (map erase_doc (heap s)) self obj) limit obj"
  shows "\<exists>s'. add_tag limit tid self obj s = Inr s' \<and>
           map erase_doc (heap s') = attach (map erase_doc (heap s)) self obj \<and>
           with_contexts s' =
             with_contexts (update_top_frame tid (\<lambda>fr. fr\<lparr>used := insert obj (used fr)\<rparr>) s)"
proof -
  let ?h3 = "attach (heap s) self obj"
  have d: "depth_within ?h3 limit obj"
    using assms(3) depth_within_erase [of ?h3 limit] by (simp add: erase_attach assms(1,2))
  obtain h' where sd: "setdocument limit ?h3 obj (document (?h3 ! self)) = Inr h'"
    using setdocument_succeeds(1) [OF d] by blast
  have e: "map erase_doc h' = map erase_doc ?h3"
    by (rule setdocument_erase(1) [OF sd])
  show ?thesis
    using sd e
    by (simp add: add_tag_def Let_def attach_def update_node_def erase_attach [unfolded attach_def Let_def] assms(1,2))
qed

lemma children_attach:
  "r < length h \<Longrightarrow>
   children (attach h self obj ! r) = (if r = self then children (h ! r) @ [Tag obj] else children (h ! r))"
  by (cases "r = obj"; cases "r = self") (simp_all add: attach_def Let_def)

lemma shallow_attach:
  assumes "shallow h self y"
  shows "shallow (attach h self y') self y"
proof -
  have a: "list_all (child_ok (\<lambda>z. z < length h \<and> z \<noteq> self \<and> list_all (child_ok (\<lambda>u. False)) (children (h ! z)))) (children (h ! y))"
    using assms by (simp add: shallow_def)
  have "list_all (child_ok (\<lambda>z. z < length (attach h self y') \<and> z \<noteq> self \<and>
           list_all (child_ok (\<lambda>u. False)) (children (attach h self y' ! z)))) (children (h ! y))"
    by (rule list_all_child_ok_mono [OF a]) (simp add: children_attach)
  then show ?thesis
    using assms by (simp add: shallow_def children_attach)
qed

lemma shallow_depth:
  assumes "shallow h self y"
  shows "depth_within (attach h self y') (Suc (Suc n)) y"
proof -
  have a: "list_all (child_ok (\<lambda>z. z < length h \<and> z \<noteq> self \<and> list_all (child_ok (\<lambda>u. False)) (children (h ! z)))) (children (h ! y))"
    using assms by (simp add: shallow_def)
  have "list_all (child_ok (depth_within (attach h self y') (Suc n))) (children (h ! y))"
    by (rule list_all_child_ok_mono [OF a]) (simp add: children_attach tagless_child_ok)
  then show ?thesis
    using assms by (simp add: shallow_def children_attach)
qed

lemma frames_update_top_frame:
  assumes "\<And>fr. tag (f fr) = tag fr" and "\<And>fr. items (f fr) = items fr"
  shows "frames (update_top_frame tid f s) t = frames s t"
proof (cases "with_contexts s tid")
  case None
  then show ?thesis by (simp add: frames_def update_top_frame_def)
next
  case (Some stack)
  show ?thesis
  proof (cases "stack = []")
    case True
    with Some show ?thesis by (simp add: frames_def update_top_frame_def)
  next
    case False
    have "map (\<lambda>fr. (tag fr, items fr)) (butlast stack @ [f (last stack)]) =
          map (\<lambda>fr. (tag fr, items fr)) (butlast stack) @ [(tag (last stack), items (last stack))]"
      by (simp add: assms)
    also have "\<dots> = map (\<lambda>fr. (tag fr, items fr)) (butlast stack @ [last stack])"
      by simp
    also have "\<dots> = map (\<lambda>fr. (tag fr, items fr)) stack"
      using append_butlast_last_id [OF False] by (rule arg_cong)
    finally show ?thesis
      using Some False by (simp add: frames_def update_top_frame_def)
  qed
qed

lemma exit_items_effect:
  assumes "self < length (heap s)"
    and "\<forall>y \<in> set its. shallow (map erase_doc (heap s)) self y"
  shows "\<exists>s'. exit_items (Suc (Suc n)) tid self fr its s = Inr s' \<and>
           map erase_doc (heap s') =
             foldl (\<lambda>h y. attach h self y) (map erase_doc (heap s)) (filter (\<lambda>y. y \<notin> used fr) its) \<and>
           (\<forall>t. frames s' t = frames s t)"
  using assms
proof (induction its arbitrary: s)
  case Nil
  show ?case by simp
next
  case (Cons y its)
  show ?case
  proof (cases "y \<in> used fr")
    case True
    with Cons.IH [OF Cons.prems(1)] Cons.prems(2) show ?thesis by simp
  next
    case False
    have sy: "shallow (map erase_doc (heap s)) self y"
      using Cons.prems(2) by simp
    then have y: "y < length (heap s)"
      by (simp add: shallow_def)
    obtain s1 where a: "add_tag (Suc (Suc n)) tid self y s = Inr s1"
      and e: "map erase_doc (heap s1) = attach (map erase_doc (heap s)) self y"
      and c: "with_contexts s1 =
             with_contexts (update_top_frame tid (\<lambda>fr. fr\<lparr>used := insert y (used fr)\<rparr>) s)"
      using add_tag_effect [OF Cons.prems(1) y shallow_depth [OF sy]] by blast
    have l: "length (heap s1) = length (heap s)"
      using e by (metis length_attach length_map)
    have f1: "frames s1 t = frames s t" for t
      using frames_update_top_frame [of "\<lambda>fr. fr\<lparr>used := insert y (used fr)\<rparr>" tid s t] c
      by (simp add: frames_def)
    have "\<forall>z \<in> set its. shallow (map erase_doc (heap s1)) self z"
      using Cons.prems(2) by (simp add: e shallow_attach)
    from Cons.IH [of s1, OF _ this] Cons.prems(1) l
    obtain s' where b: "exit_items (Suc (Suc n)) tid self fr its s1 = Inr s'"
      and e': "map erase_doc (heap s') =
             foldl (\<lambda>h y. attach h self y) (map erase_doc (heap s1)) (filter (\<lambda>y. y \<notin> used fr) its)"
      and f': "\<forall>t. frames s' t = frames s1 t"
      by auto
    show ?thesis
      using False a b e e' f' f1 by (simp add: add_def)
  qed
qed

lemma exit_effect:
  assumes c: "with_contexts s tid = Some (stack0 @ [fr])"
    and p: "self < length (heap s)"
    and sh: "\<forall>y \<in> set (items fr). shallow (map erase_doc (heap s)) self y"
  shows "\<exists>s'. exit (Suc (Suc n)) tid self s = Inr s' \<and>
           map erase_doc (heap s') =
             foldl (\<lambda>h y. attach h self y) (map erase_doc (heap s)) (filter (\<lambda>y. y \<notin> used fr) (items fr)) \<and>
           frames s' tid = (if stack0 = [] then None else Some (map (\<lambda>fr. (tag fr, items fr)) stack0)) \<and>
           (\<forall>t. t \<noteq> tid \<longrightarrow> frames s' t = frames s t)"
proof -
  let ?s0 = "s\<lparr>with_contexts := (with_contexts s)(tid \<mapsto> stack0)\<rparr>"
  have p0: "self < length (heap ?s0)" and sh0: "\<forall>y \<in> set (items fr). shallow (map erase_doc (heap ?s0)) self y"
    using p sh by simp_all
  obtain s1 where a: "exit_items (Suc (Suc n)) tid self fr (items fr) ?s0 = Inr s1"
    and e: "map erase_doc (heap s1) =
             foldl (\<lambda>h y. attach h self y) (map erase_doc (heap ?s0)) (filter (\<lambda>y. y \<notin> used fr) (items fr))"
    and f: "\<forall>t. frames s1 t = frames ?s0 t"
    using exit_items_effect [OF p0 sh0, of n tid fr] by blast
  have f0: "frames ?s0 tid = Some (map (\<lambda>fr. (tag fr, items fr)) stack0)"
    by (simp add: frames_def)
  have fo: "frames ?s0 t = frames s t" if "t \<noteq> tid" for t
    using that by (simp add: frames_def)
  have f1: "frames s1 tid = Some (map (\<lambda>fr. (tag fr, items fr)) stack0)"
    using f f0 by simp
  have empty: "(with_contexts s1 tid = Some []) = (stack0 = [])"
    using f1 by (cases "with_contexts s1 tid") (auto simp: frames_def)
  let ?s' = "if with_contexts s1 tid = Some []
             then s1\<lparr>with_contexts := (with_contexts s1)(tid := None)\<rparr> else s1"
  have x: "exit (Suc (Suc n)) tid self s = Inr ?s'"
    using c a by (simp add: exit_def Let_def)
  have h: "heap ?s' = heap s1"
    by simp
  have ft: "frames ?s' tid = (if stack0 = [] then None else Some (map (\<lambda>fr. (tag fr, items fr)) stack0))"
    using f f0 empty by (simp add: frames_def)
  have fot: "frames ?s' t = frames s t" if "t \<noteq> tid" for t
    using f fo [OF that] that by (simp add: frames_def)
  show ?thesis
    using x e ft fot unfolding h by (intro exI [of _ ?s']) simp
qed

lemma children_foldl_attach:
  "r < length h \<Longrightarrow>
   children (foldl (\<lambda>h y. attach h self y) h ys ! r) =
     (if r = self then children (h ! r) @ map Tag ys else children (h ! r))"
  by (induction ys arbitrary: h) (simp_all add: children_attach)

lemma children_foldl_attach_self:
  "self < length h \<Longrightarrow>
   children (foldl (\<lambda>h y. attach h self y) h ys ! self) = children (h ! self) @ map Tag ys"
  by (simp add: children_foldl_attach)

lemma children_foldl_attach_other:
  "r < length h \<Longrightarrow> r \<noteq> self \<Longrightarrow>
   children (foldl (\<lambda>h y. attach h self y) h ys ! r) = children (h ! r)"
  by (simp add: children_foldl_attach)

lemma length_foldl_attach [simp]: "length (foldl (\<lambda>h y. attach h self y) h ys) = length h"
  by (induction ys arbitrary: h) simp_all

lemma children_of_erased:
  assumes "map erase_doc h = E" and "r < length E"
  shows "children (h ! r) = children (E ! r)"
proof -
  have "children (E ! r) = children (erase_doc (h ! r))"
    using assms by (metis length_map nth_map)
  then show ?thesis by simp
qed

lemma parent_attach:
  "r < length h \<Longrightarrow> parent (attach h self obj ! r) = (if r = obj then Some self else parent (h ! r))"
  by (cases "r = obj"; cases "r = self") (simp_all add: attach_def Let_def)

lemma parent_foldl_attach_other:
  "r < length h \<Longrightarrow> r \<notin> set ys \<Longrightarrow>
   parent (foldl (\<lambda>h y. attach h self y) h ys ! r) = parent (h ! r)"
  by (induction ys arbitrary: h) (simp_all add: parent_attach)

lemma parent_of_erased:
  assumes "map erase_doc h = E" and "r < length E"
  shows "parent (h ! r) = parent (E ! r)"
proof -
  have "parent (E ! r) = parent (erase_doc (h ! r))"
    using assms by (metis length_map nth_map)
  then show ?thesis by simp
qed

lemma refs_closed_count:
  assumes "refs_closed h" and "r < length h" and "length h \<le> x"
  shows "count_list (children (h ! r)) (Tag x) = 0"
proof -
  have "list_all (child_ok (\<lambda>z. z < length h)) (children (h ! r))"
    using assms(1,2) by (simp add: refs_closed_def list_all_length)
  then have "Tag x \<notin> set (children (h ! r))"
    using assms(3) by (auto simp: list_all_iff)
  then show ?thesis
    by (simp add: count_list_0_iff)
qed

lemma clean_pair_named:
  assumes "k \<noteq> []"
  shows "\<exists>a v'. clean_pair k v = Inr (a, v')"
proof -
  have "(case map_of shorthand k of Some full \<Rightarrow> full | None \<Rightarrow> k) \<noteq> []"
    using assms by (auto simp: shorthand_def split: option.splits if_splits)
  then obtain a where "clean_attribute k = Inr a"
    by (simp add: clean_attribute_def Let_def)
  then show ?thesis
    by (simp add: clean_pair_def)
qed

lemma set_attributes_effect:
  assumes "list_all (\<lambda>kv. fst kv \<noteq> []) kws" and "self < length (heap s)"
  shows "\<exists>A. set_attributes self kws s =
           Inr (s\<lparr>heap := (heap s)[self := (heap s ! self)\<lparr>attributes := A\<rparr>]\<rparr>)"
  using assms
proof (induction kws arbitrary: s)
  case Nil
  have "s\<lparr>heap := (heap s)[self := (heap s ! self)\<lparr>attributes := attributes (heap s ! self)\<rparr>]\<rparr> = s"
    by simp
  then show ?case
    by (metis set_attributes.simps(1))
next
  case (Cons kv kws)
  obtain k v where kv: "kv = (k, v)" by (cases kv)
  from Cons.prems(1) kv have k: "k \<noteq> []" and rest: "list_all (\<lambda>kv. fst kv \<noteq> []) kws"
    by simp_all
  obtain a v' where cp: "clean_pair k v = Inr (a, v')"
    using clean_pair_named [OF k] by blast
  let ?n = "(heap s ! self)\<lparr>attributes := dict_set (attributes (heap s ! self)) a v'\<rparr>"
  let ?s1 = "s\<lparr>heap := (heap s)[self := ?n]\<rparr>"
  have l: "self < length (heap ?s1)"
    using Cons.prems(2) by simp
  obtain A where r: "set_attributes self kws ?s1 =
           Inr (?s1\<lparr>heap := (heap ?s1)[self := (heap ?s1 ! self)\<lparr>attributes := A\<rparr>]\<rparr>)"
    using Cons.IH [OF rest l] by blast
  have "set_attributes self (kv # kws) s = set_attributes self kws ?s1"
    by (simp add: kv cp)
  then show ?case
    using r Cons.prems(2) by (intro exI [of _ A]) simp
qed

lemma construct_effect:
  assumes "named c"
  shows "\<exists>node. built node c \<and>
           construct limit tid c s =
             Inr (length (heap s), add_to_ctx tid (length (heap s)) (s\<lparr>heap := heap s @ [node]\<rparr>))"
proof -
  let ?self = "length (heap s)"
  let ?kw = "filter (\<lambda>kv. fst kv \<noteq> ''__inline'' \<and> fst kv \<noteq> ''__pretty'') (call_kwargs c)"
  let ?node = "\<lparr>klass = call_class c, attributes = [], children = [], parent = None, document = None,
                  is_inline = (case map_of (call_kwargs c) ''__inline'' of
                                 Some v \<Rightarrow> truthy v | None \<Rightarrow> class_is_inline (call_class c)),
                  is_pretty = (case map_of (call_kwargs c) ''__pretty'' of
                                 Some v \<Rightarrow> truthy v | None \<Rightarrow> class_is_pretty (call_class c))\<rparr>"
  let ?s0 = "s\<lparr>heap := heap s @ [?node]\<rparr>"
  let ?s1 = "?s0\<lparr>heap := (heap ?s0)[?self := (heap ?s0 ! ?self)
           \<lparr>children := children (heap ?s0 ! ?self) @ text_children c\<rparr>]\<rparr>"
  have self0: "?self < length (heap ?s0)"
    by simp
  have a: "(if map AString (call_texts c) \<noteq> [] then add limit tid ?self (map AString (call_texts c)) ?s0
            else Inr ?s0) = Inr ?s1"
  proof (cases "call_texts c = []")
    case True
    then show ?thesis by (simp add: text_children_def)
  next
    case False
    then show ?thesis
      using add_args_texts [OF self0, of limit tid "call_texts c"]
      by (simp add: add_def text_children_def)
  qed
  have kw: "list_all (\<lambda>kv. fst kv \<noteq> []) ?kw"
    using assms by (simp add: named_def list_all_iff)
  have self1: "?self < length (heap ?s1)"
    by simp
  obtain A where b: "set_attributes ?self ?kw ?s1 =
           Inr (?s1\<lparr>heap := (heap ?s1)[?self := (heap ?s1 ! ?self)\<lparr>attributes := A\<rparr>]\<rparr>)"
    using set_attributes_effect [OF kw self1] by blast
  let ?final = "?node\<lparr>children := text_children c, attributes := A\<rparr>"
  have h: "?s1\<lparr>heap := (heap ?s1)[?self := (heap ?s1 ! ?self)\<lparr>attributes := A\<rparr>]\<rparr> =
           s\<lparr>heap := heap s @ [?final]\<rparr>"
    by simp
  have "construct limit tid c s =
          bind_err (Inr ?s1) (\<lambda>s1. bind_err (set_attributes ?self ?kw s1) (\<lambda>s2.
            Inr (?self, add_to_ctx tid ?self s2)))"
    unfolding construct_def init_def Let_def a ..
  then have "construct limit tid c s = Inr (?self, add_to_ctx tid ?self (s\<lparr>heap := heap s @ [?final]\<rparr>))"
    by (simp only: bind_err.simps b h)
  moreover have "built ?final c"
    by (simp add: built_def)
  ultimately show ?thesis
    by blast
qed

lemma with_three_constructed:
  assumes "named A" and "named B" and "named C"
  shows "\<exists>na nb nc. built na A \<and> built nb B \<and> built nc C \<and>
           (\<forall>body. with_three limit tid P A B C body s =
              bind_err (body (constructed tid P [na, nb, nc] s)) (exit limit tid P))"
proof -
  let ?a = "length (heap s)"
  let ?s0 = "enter tid P s"
  obtain na where na: "built na A"
    and ca: "construct limit tid A ?s0 =
               Inr (length (heap ?s0), add_to_ctx tid (length (heap ?s0)) (?s0\<lparr>heap := heap ?s0 @ [na]\<rparr>))"
    using construct_effect [OF assms(1)] by blast
  let ?s1 = "add_to_ctx tid (length (heap ?s0)) (?s0\<lparr>heap := heap ?s0 @ [na]\<rparr>)"
  obtain nb where nb: "built nb B"
    and cb: "construct limit tid B ?s1 =
               Inr (length (heap ?s1), add_to_ctx tid (length (heap ?s1)) (?s1\<lparr>heap := heap ?s1 @ [nb]\<rparr>))"
    using construct_effect [OF assms(2)] by blast
  let ?s2 = "add_to_ctx tid (length (heap ?s1)) (?s1\<lparr>heap := heap ?s1 @ [nb]\<rparr>)"
  obtain nc where nc: "built nc C"
    and cc: "construct limit tid C ?s2 =
               Inr (length (heap ?s2), add_to_ctx tid (length (heap ?s2)) (?s2\<lparr>heap := heap ?s2 @ [nc]\<rparr>))"
    using construct_effect [OF assms(3)] by blast
  let ?s3 = "add_to_ctx tid (length (heap ?s2)) (?s2\<lparr>heap := heap ?s2 @ [nc]\<rparr>)"
  have s3: "?s3 = constructed tid P [na, nb, nc] s"
    by (simp add: enter_def add_to_ctx_def update_top_frame_def constructed_def Let_def)
  have "with_three limit tid P A B C body s = bind_err (body ?s3) (exit limit tid P)" for body
    by (simp only: with_three_def ca cb cc bind_err.simps prod.case)
  then show ?thesis
    using na nb nc unfolding s3 by blast
qed

lemma erase_built: "built n c \<Longrightarrow> erase_doc n = n"
  by (simp add: built_def erase_doc_def)

lemma text_children_ok: "list_all (child_ok Q) (text_children c)"
  by (simp add: text_children_def list_all_iff)

lemma count_text_children: "count_list (text_children c) (Tag x) = 0"
  by (simp add: text_children_def count_list_0_iff image_iff)

lemma constructed_fields:
  "heap (constructed tid P nodes s) = heap s @ nodes"
  "with_contexts (constructed tid P nodes s) tid =
     Some ((case with_contexts s tid of None \<Rightarrow> [] | Some st \<Rightarrow> st) @
           [\<lparr>tag = P, items = [length (heap s), length (heap s) + 1, length (heap s) + 2], used = {}\<rparr>])"
  "t \<noteq> tid \<Longrightarrow> frames (constructed tid P nodes s) t = frames s t"
  by (simp_all add: constructed_def frames_def)

lemma children_constructed:
  assumes "built na A" and "built nb B" and "built nc C" and "r < length (heap s) + 3"
  shows "children ((map erase_doc (heap s) @ [na, nb, nc]) ! r) =
     (if r < length (heap s) then children (heap s ! r)
      else text_children ([A, B, C] ! (r - length (heap s))))"
proof (cases "r < length (heap s)")
  case True
  then show ?thesis by (simp add: nth_append)
next
  case False
  with assms(4) have "r - length (heap s) \<in> {0, 1, 2}"
    by auto
  with False assms(1-3) show ?thesis
    by (auto simp: nth_append built_def)
qed

lemma scoped_three:
  assumes P: "P < length (heap s)" and named: "named A" "named B" "named C"
  shows "\<exists>s'. with_three (Suc (Suc n)) tid P A B C Inr s = Inr s' \<and>
     length (heap s') = length (heap s) + 3 \<and>
     children (heap s' ! P) =
       children (heap s ! P) @ [Tag (length (heap s)), Tag (length (heap s) + 1), Tag (length (heap s) + 2)] \<and>
     frames s' tid = (if frames s tid = None \<or> frames s tid = Some [] then None else frames s tid) \<and>
     (\<forall>t. t \<noteq> tid \<longrightarrow> frames s' t = frames s t)"
proof -
  obtain na nb nc where b: "built na A" "built nb B" "built nc C"
    and w: "\<And>body. with_three (Suc (Suc n)) tid P A B C body s =
              bind_err (body (constructed tid P [na, nb, nc] s)) (exit (Suc (Suc n)) tid P)"
    using with_three_constructed [OF named, of "Suc (Suc n)" tid P s] by blast
  let ?a = "length (heap s)"
  let ?s3 = "constructed tid P [na, nb, nc] s"
  let ?stack0 = "case with_contexts s tid of None \<Rightarrow> [] | Some st \<Rightarrow> st"
  let ?fr = "\<lparr>tag = P, items = [?a, ?a + 1, ?a + 2], used = {}\<rparr>"
  let ?E3 = "map erase_doc (heap s) @ [na, nb, nc]"
  have E3: "map erase_doc (heap ?s3) = ?E3"
    using b by (simp add: constructed_fields erase_built)
  have c: "with_contexts ?s3 tid = Some (?stack0 @ [?fr])"
    by (simp add: constructed_fields)
  have p: "P < length (heap ?s3)"
    using P by (simp add: constructed_fields)
  have sh1: "shallow ?E3 P y" if "y \<in> set (items ?fr)" for y
  proof -
    have y: "y < ?a + 3" and yP: "y \<noteq> P" and ya: "\<not> y < ?a"
      using that P by auto
    show ?thesis
      using y yP ya by (simp add: shallow_def children_constructed [OF b y] text_children_ok)
  qed
  have sh: "\<forall>y \<in> set (items ?fr). shallow (map erase_doc (heap ?s3)) P y"
    unfolding E3 using sh1 by blast
  obtain s' where x: "exit (Suc (Suc n)) tid P ?s3 = Inr s'"
    and e: "map erase_doc (heap s') =
             foldl (\<lambda>h y. attach h P y) (map erase_doc (heap ?s3)) (filter (\<lambda>y. y \<notin> used ?fr) (items ?fr))"
    and f: "frames s' tid = (if ?stack0 = [] then None else Some (map (\<lambda>fr. (tag fr, items fr)) ?stack0))"
    and fo: "\<forall>t. t \<noteq> tid \<longrightarrow> frames s' t = frames ?s3 t"
    using exit_effect [OF c p sh, of n] by blast
  have "length (map erase_doc (heap s')) = ?a + 3"
    unfolding e by (simp add: E3)
  then have l: "length (heap s') = ?a + 3"
    by simp
  have k: "filter (\<lambda>y. y \<notin> used ?fr) (items ?fr) = [?a, ?a + 1, ?a + 2]"
    by simp
  have pe: "P < length ?E3"
    using P by simp
  have "children (foldl (\<lambda>h y. attach h P y) ?E3 [?a, ?a + 1, ?a + 2] ! P) =
        children (?E3 ! P) @ map Tag [?a, ?a + 1, ?a + 2]"
    by (rule children_foldl_attach_self [OF pe])
  also have "children (?E3 ! P) = children (heap s ! P)"
    using P by (simp add: nth_append)
  finally have fc: "children (foldl (\<lambda>h y. attach h P y) ?E3 [?a, ?a + 1, ?a + 2] ! P) =
        children (heap s ! P) @ [Tag ?a, Tag (?a + 1), Tag (?a + 2)]"
    by simp
  have "P < length (foldl (\<lambda>h y. attach h P y) (map erase_doc (heap ?s3))
                     (filter (\<lambda>y. y \<notin> used ?fr) (items ?fr)))"
    using pe by (simp only: length_foldl_attach E3)
  from children_of_erased [OF e this]
  have ch: "children (heap s' ! P) = children (heap s ! P) @ [Tag ?a, Tag (?a + 1), Tag (?a + 2)]"
    unfolding E3 k fc .
  have fr: "frames s' tid = (if frames s tid = None \<or> frames s tid = Some [] then None else frames s tid)"
    unfolding f by (cases "with_contexts s tid") (auto simp: frames_def)
  have run: "with_three (Suc (Suc n)) tid P A B C Inr s = Inr s'"
    using x by (simp add: w)
  show ?thesis
    using run l ch fr fo by (simp add: constructed_fields)
qed

lemma scoped_three_added_elsewhere:
  assumes P: "P < length (heap s)" and named: "named A" "named B" "named C"
    and j: "j < 3" and Q: "Q < length (heap s) + 3"
    and QP: "Q \<noteq> P" and Qx: "Q \<noteq> length (heap s) + j" and closed: "refs_closed (heap s)"
  shows "\<exists>s'. with_three (Suc (Suc n)) tid P A B C
                (add (Suc (Suc n)) tid Q [ATag (length (heap s) + j)]) s = Inr s' \<and>
     length (heap s') = length (heap s) + 3 \<and>
     children (heap s' ! P) =
       children (heap s ! P) @
       map Tag (filter (\<lambda>y. y \<noteq> length (heap s) + j)
                  [length (heap s), length (heap s) + 1, length (heap s) + 2]) \<and>
     children (heap s' ! Q) =
       (if Q < length (heap s) then children (heap s ! Q)
        else text_children ([A, B, C] ! (Q - length (heap s)))) @ [Tag (length (heap s) + j)] \<and>
     (\<forall>r. r < length (heap s') \<longrightarrow>
        count_list (children (heap s' ! r)) (Tag (length (heap s) + j)) = (if r = Q then 1 else 0)) \<and>
     parent (heap s' ! (length (heap s) + j)) = Some Q \<and>
     frames s' tid = (if frames s tid = None \<or> frames s tid = Some [] then None else frames s tid) \<and>
     (\<forall>t. t \<noteq> tid \<longrightarrow> frames s' t = frames s t)"
proof -
  obtain na nb nc where b: "built na A" "built nb B" "built nc C"
    and w: "\<And>body. with_three (Suc (Suc n)) tid P A B C body s =
              bind_err (body (constructed tid P [na, nb, nc] s)) (exit (Suc (Suc n)) tid P)"
    using with_three_constructed [OF named, of "Suc (Suc n)" tid P s] by blast
  let ?a = "length (heap s)"
  let ?x = "?a + j"
  let ?s3 = "constructed tid P [na, nb, nc] s"
  let ?stack0 = "case with_contexts s tid of None \<Rightarrow> [] | Some st \<Rightarrow> st"
  let ?its = "[?a, ?a + 1, ?a + 2]"
  let ?fr3 = "\<lparr>tag = P, items = ?its, used = {}\<rparr>"
  let ?fr4 = "\<lparr>tag = P, items = ?its, used = {?x}\<rparr>"
  let ?E3 = "map erase_doc (heap s) @ [na, nb, nc]"
  let ?E4 = "attach ?E3 Q ?x"
  let ?ys = "filter (\<lambda>y. y \<noteq> ?x) ?its"
  let ?before = "\<lambda>r. if r < ?a then children (heap s ! r) else text_children ([A, B, C] ! (r - ?a))"
  have E3: "map erase_doc (heap ?s3) = ?E3"
    using b by (simp add: constructed_fields erase_built)
  have c3: "with_contexts ?s3 tid = Some (?stack0 @ [?fr3])"
    by (simp add: constructed_fields)
  have x3: "?x < ?a + 3"
    using j by simp
  have ch4: "children (?E4 ! r) = ?before r @ (if r = Q then [Tag ?x] else [])"
    if "r < ?a + 3" for r
  proof -
    have "r < length ?E3"
      using that by simp
    then have "children (?E4 ! r) =
        (if r = Q then children (?E3 ! r) @ [Tag ?x] else children (?E3 ! r))"
      by (rule children_attach)
    then show ?thesis
      unfolding children_constructed [OF b that] by simp
  qed
  have chx4: "children (?E4 ! ?x) = text_children ([A, B, C] ! j)"
    using ch4 [OF x3] Qx by simp
  have d: "depth_within (attach (map erase_doc (heap ?s3)) Q ?x) (Suc (Suc n)) ?x"
    unfolding E3 using x3 by (simp add: chx4 text_children_ok)
  have Q3: "Q < length (heap ?s3)" and x3': "?x < length (heap ?s3)"
    using Q x3 by (simp_all add: constructed_fields)
  obtain s4 where a4: "add_tag (Suc (Suc n)) tid Q ?x ?s3 = Inr s4"
    and e4: "map erase_doc (heap s4) = ?E4"
    and w4: "with_contexts s4 =
             with_contexts (update_top_frame tid (\<lambda>fr. fr\<lparr>used := insert ?x (used fr)\<rparr>) ?s3)"
    using add_tag_effect [OF Q3 x3' d, of tid] unfolding E3 by blast
  have body: "add (Suc (Suc n)) tid Q [ATag ?x] ?s3 = Inr s4"
    using a4 by (simp add: add_def)
  have c4: "with_contexts s4 tid = Some (?stack0 @ [?fr4])"
    unfolding w4 by (simp add: update_top_frame_def c3)
  have fo4: "frames s4 t = frames s t" if "t \<noteq> tid" for t
  proof -
    have "frames s4 t = frames ?s3 t"
      using frames_update_top_frame [of "\<lambda>fr. fr\<lparr>used := insert ?x (used fr)\<rparr>" tid ?s3 t] w4
      by (simp add: frames_def)
    then show ?thesis
      using that by (simp add: constructed_fields)
  qed
  have l4: "length (heap s4) = ?a + 3"
  proof -
    have "length (map erase_doc (heap s4)) = ?a + 3"
      unfolding e4 by simp
    then show ?thesis by simp
  qed
  have p4: "P < length (heap s4)"
    using P l4 by simp
  have sh1: "shallow ?E4 P y" if "y \<in> set ?its" for y
  proof -
    have y: "y < ?a + 3" and yP: "y \<noteq> P" and ya: "\<not> y < ?a"
      using that P by auto
    have "list_all (child_ok (\<lambda>z. z < length ?E4 \<and> z \<noteq> P \<and>
             list_all (child_ok (\<lambda>u. False)) (children (?E4 ! z)))) (children (?E4 ! y))"
      unfolding ch4 [OF y] using x3 P ya by (simp add: chx4 text_children_ok)
    then show ?thesis
      using y yP by (simp add: shallow_def)
  qed
  have sh: "\<forall>y \<in> set (items ?fr4). shallow (map erase_doc (heap s4)) P y"
    unfolding e4 using sh1 by simp
  obtain s' where x: "exit (Suc (Suc n)) tid P s4 = Inr s'"
    and e: "map erase_doc (heap s') =
             foldl (\<lambda>h y. attach h P y) (map erase_doc (heap s4)) (filter (\<lambda>y. y \<notin> used ?fr4) (items ?fr4))"
    and f: "frames s' tid = (if ?stack0 = [] then None else Some (map (\<lambda>fr. (tag fr, items fr)) ?stack0))"
    and fo: "\<forall>t. t \<noteq> tid \<longrightarrow> frames s' t = frames s4 t"
    using exit_effect [OF c4 p4 sh, of n] by blast
  have k: "filter (\<lambda>y. y \<notin> used ?fr4) (items ?fr4) = ?ys"
    by simp
  have e': "map erase_doc (heap s') = foldl (\<lambda>h y. attach h P y) ?E4 ?ys"
    using e unfolding e4 k .
  have l: "length (heap s') = ?a + 3"
  proof -
    have "length (map erase_doc (heap s')) = ?a + 3"
      unfolding e' by simp
    then show ?thesis by simp
  qed
  have ch: "children (heap s' ! r) =
        ?before r @ (if r = Q then [Tag ?x] else []) @ (if r = P then map Tag ?ys else [])"
    if r: "r < ?a + 3" for r
  proof -
    have rl: "r < length (foldl (\<lambda>h y. attach h P y) ?E4 ?ys)" and r4: "r < length ?E4"
      using r by simp_all
    have "children (heap s' ! r) = children (foldl (\<lambda>h y. attach h P y) ?E4 ?ys ! r)"
      by (rule children_of_erased [OF e' rl])
    also have "\<dots> = (if r = P then children (?E4 ! r) @ map Tag ?ys else children (?E4 ! r))"
      by (rule children_foldl_attach [OF r4])
    finally have "children (heap s' ! r) =
        (if r = P then children (?E4 ! r) @ map Tag ?ys else children (?E4 ! r))" .
    then show ?thesis
      unfolding ch4 [OF r] by (simp del: filter.simps)
  qed
  have chP: "children (heap s' ! P) = children (heap s ! P) @ map Tag ?ys"
    using ch [of P] P QP by simp
  have chQ: "children (heap s' ! Q) = ?before Q @ [Tag ?x]"
    using ch [OF Q] QP by simp
  have cnt: "count_list (children (heap s' ! r)) (Tag ?x) = (if r = Q then 1 else 0)"
    if "r < length (heap s')" for r
  proof -
    have r: "r < ?a + 3"
      using that l by simp
    have old: "count_list (?before r) (Tag ?x) = 0"
      using refs_closed_count [OF closed, of r ?x] by (simp add: count_text_children)
    have new: "count_list (if r = P then map Tag ?ys else []) (Tag ?x) = 0"
      by (simp add: count_list_0_iff)
    show ?thesis
      unfolding ch [OF r] using old new by (simp del: filter.simps)
  qed
  have par: "parent (heap s' ! ?x) = Some Q"
  proof -
    have xl: "?x < length (foldl (\<lambda>h y. attach h P y) ?E4 ?ys)" and x4: "?x < length ?E4"
      and x3l: "?x < length ?E3"
      using x3 by simp_all
    have "parent (heap s' ! ?x) = parent (foldl (\<lambda>h y. attach h P y) ?E4 ?ys ! ?x)"
      by (rule parent_of_erased [OF e' xl])
    also have "\<dots> = parent (?E4 ! ?x)"
      by (rule parent_foldl_attach_other [OF x4]) simp
    also have "\<dots> = Some Q"
      using parent_attach [OF x3l, of Q ?x] by simp
    finally show ?thesis .
  qed
  have fr: "frames s' tid = (if frames s tid = None \<or> frames s tid = Some [] then None else frames s tid)"
    unfolding f by (cases "with_contexts s tid") (auto simp: frames_def)
  have fo': "\<forall>t. t \<noteq> tid \<longrightarrow> frames s' t = frames s t"
    using fo fo4 by simp
  have run: "with_three (Suc (Suc n)) tid P A B C (add (Suc (Suc n)) tid Q [ATag ?x]) s = Inr s'"
    using body x by (simp add: w)
  show ?thesis
    using run l chP chQ cnt par fr fo' by blast
qed

text \<open>
  The block alone, and an add made directly in it. For every existing tag \<open>P\<close>, in
  every state, the block \<open>with P: a = A; b = B; c = C\<close> for three constructor calls
  with text children and keyword attributes returns, and \<open>P\<close> has its former children
  followed by exactly \<open>a\<close>, \<open>b\<close>, \<open>c\<close> in construction order (so exactly these
  three when it had none); the frame of \<open>P\<close> is popped and an emptied stack is
  removed. When the block goes on to add one of the three, \<open>x\<close>, to another node
  \<open>Q\<close> (an older node or one of the two siblings) while the frame of \<open>P\<close> is the top
  of the stack, \<open>x\<close> is skipped on exit: \<open>P\<close> gains the other two in order, \<open>Q\<close>
  gains \<open>x\<close> after the children it had, the parent of \<open>x\<close> is \<open>Q\<close>, and \<open>x\<close>
  occurs once in the children of \<open>Q\<close> and in no other children list. For the count
  the store is assumed closed (no children list refers to an object not yet allocated).
\<close>

theorem scoped_construction:
  assumes "P < length (heap s)" and "named A" and "named B" and "named C"
  shows
    "(\<exists>s'. with_three (Suc (Suc n)) tid P A B C Inr s = Inr s' \<and>
        children (heap s' ! P) =
          children (heap s ! P) @
          [Tag (length (heap s)), Tag (length (heap s) + 1), Tag (length (heap s) + 2)] \<and>
        (children (heap s ! P) = [] \<longrightarrow>
           children (heap s' ! P) =
             [Tag (length (heap s)), Tag (length (heap s) + 1), Tag (length (heap s) + 2)]) \<and>
        frames s' tid = (if frames s tid = None \<or> frames s tid = Some [] then None else frames s tid)) \<and>
     (\<forall>Q j. j < 3 \<and> Q < length (heap s) + 3 \<and> Q \<noteq> P \<and> Q \<noteq> length (heap s) + j \<and>
          refs_closed (heap s) \<longrightarrow>
        (\<exists>s'. with_three (Suc (Suc n)) tid P A B C
                 (add (Suc (Suc n)) tid Q [ATag (length (heap s) + j)]) s = Inr s' \<and>
           children (heap s' ! P) =
             children (heap s ! P) @
             map Tag (filter (\<lambda>y. y \<noteq> length (heap s) + j)
                        [length (heap s), length (heap s) + 1, length (heap s) + 2]) \<and>
           children (heap s' ! Q) =
             (if Q < length (heap s) then children (heap s ! Q)
              else text_children ([A, B, C] ! (Q - length (heap s)))) @ [Tag (length (heap s) + j)] \<and>
           parent (heap s' ! (length (heap s) + j)) = Some Q \<and>
           (\<forall>r. r < length (heap s') \<longrightarrow>
              count_list (children (heap s' ! r)) (Tag (length (heap s) + j)) = (if r = Q then 1 else 0))))"
proof -
  have first: "\<exists>s'. with_three (Suc (Suc n)) tid P A B C Inr s = Inr s' \<and>
        children (heap s' ! P) =
          children (heap s ! P) @
          [Tag (length (heap s)), Tag (length (heap s) + 1), Tag (length (heap s) + 2)] \<and>
        (children (heap s ! P) = [] \<longrightarrow>
           children (heap s' ! P) =
             [Tag (length (heap s)), Tag (length (heap s) + 1), Tag (length (heap s) + 2)]) \<and>
        frames s' tid = (if frames s tid = None \<or> frames s tid = Some [] then None else frames s tid)"
    using scoped_three [OF assms, of n tid] by auto
  have second: "\<exists>s'. with_three (Suc (Suc n)) tid P A B C
                 (add (Suc (Suc n)) tid Q [ATag (length (heap s) + j)]) s = Inr s' \<and>
           children (heap s' ! P) =
             children (heap s ! P) @
             map Tag (filter (\<lambda>y. y \<noteq> length (heap s) + j)
                        [length (heap s), length (heap s) + 1, length (heap s) + 2]) \<and>
           children (heap s' ! Q) =
             (if Q < length (heap s) then children (heap s ! Q)
              else text_children ([A, B, C] ! (Q - length (heap s)))) @ [Tag (length (heap s) + j)] \<and>
           parent (heap s' ! (length (heap s) + j)) = Some Q \<and>
           (\<forall>r. r < length (heap s') \<longrightarrow>
              count_list (children (heap s' ! r)) (Tag (length (heap s) + j)) = (if r = Q then 1 else 0))"
    if "j < 3" "Q < length (heap s) + 3" "Q \<noteq> P" "Q \<noteq> length (heap s) + j" "refs_closed (heap s)"
    for Q j
    using scoped_three_added_elsewhere [OF assms that, of n tid] by blast
  show ?thesis
    using first second by blast
qed

theorem scoped_construction_witness:
  "0 < length (heap two_tags) \<and> refs_closed (heap two_tags) \<and>
   named \<lparr>call_class = plain_class ''li'', call_texts = [''one''], call_kwargs = []\<rparr> \<and>
   named \<lparr>call_class = plain_class ''li'', call_texts = [], call_kwargs = [(''cls'', KwStr ''x'')]\<rparr> \<and>
   named \<lparr>call_class = plain_class ''li'', call_texts = [], call_kwargs = []\<rparr> \<and>
   (\<exists>s'. with_three 2 0 0
           \<lparr>call_class = plain_class ''li'', call_texts = [''one''], call_kwargs = []\<rparr>
           \<lparr>call_class = plain_class ''li'', call_texts = [], call_kwargs = [(''cls'', KwStr ''x'')]\<rparr>
           \<lparr>call_class = plain_class ''li'', call_texts = [], call_kwargs = []\<rparr>
           Inr two_tags = Inr s' \<and>
      children (heap s' ! 0) = [Tag 2, Tag 3, Tag 4] \<and> frames s' 0 = None) \<and>
   (\<exists>s'. with_three 2 0 0
           \<lparr>call_class = plain_class ''li'', call_texts = [''one''], call_kwargs = []\<rparr>
           \<lparr>call_class = plain_class ''li'', call_texts = [], call_kwargs = [(''cls'', KwStr ''x'')]\<rparr>
           \<lparr>call_class = plain_class ''li'', call_texts = [], call_kwargs = []\<rparr>
           (add 2 0 1 [ATag 3]) two_tags = Inr s' \<and>
      children (heap s' ! 0) = [Tag 2, Tag 4] \<and> children (heap s' ! 1) = [Tag 3] \<and>
      parent (heap s' ! 3) = Some 1) \<and>
   (\<exists>s'. with_three 2 0 0
           \<lparr>call_class = plain_class ''li'', call_texts = [''one''], call_kwargs = []\<rparr>
           \<lparr>call_class = plain_class ''li'', call_texts = [], call_kwargs = [(''cls'', KwStr ''x'')]\<rparr>
           \<lparr>call_class = plain_class ''li'', call_texts = [], call_kwargs = []\<rparr>
           (add 2 0 2 [ATag 4]) two_tags = Inr s' \<and>
      children (heap s' ! 0) = [Tag 2, Tag 3] \<and> children (heap s' ! 2) = [Text ''one'', Tag 4] \<and>
      parent (heap s' ! 4) = Some 2)"
proof -
  let ?A = "\<lparr>call_class = plain_class ''li'', call_texts = [''one''], call_kwargs = []\<rparr>"
  let ?B = "\<lparr>call_class = plain_class ''li'', call_texts = [], call_kwargs = [(''cls'', KwStr ''x'')]\<rparr>"
  let ?C = "\<lparr>call_class = plain_class ''li'', call_texts = [], call_kwargs = []\<rparr>"
  have p: "0 < length (heap two_tags)"
    by (simp add: two_tags_def)
  have c: "refs_closed (heap two_tags)"
    by (simp add: two_tags_def refs_closed_def)
  have n: "named ?A" "named ?B" "named ?C"
    by (simp_all add: named_def)
  have l: "length (heap two_tags) = 2" and ch: "children (heap two_tags ! 0) = []"
      "children (heap two_tags ! 1) = []" and f: "frames two_tags 0 = None"
    by (simp_all add: two_tags_def frames_def)
  have t: "text_children ([?A, ?B, ?C] ! 0) = [Text ''one'']"
    by (simp add: text_children_def escape_def replace1_def)
  note inst = scoped_construction [OF p n, of 0 0]
  have two: "Suc (Suc 0) = 2"
    by simp
  from inst have first: "\<exists>s'. with_three 2 0 0 ?A ?B ?C Inr two_tags = Inr s' \<and>
      children (heap s' ! 0) = [Tag 2, Tag 3, Tag 4] \<and> frames s' 0 = None"
    unfolding l ch f two by simp
  from inst have general: "j < 3 \<and> Q < 2 + 3 \<and> Q \<noteq> 0 \<and> Q \<noteq> 2 + j \<and> refs_closed (heap two_tags) \<longrightarrow>
      (\<exists>s'. with_three 2 0 0 ?A ?B ?C (add 2 0 Q [ATag (2 + j)]) two_tags = Inr s' \<and>
           children (heap s' ! 0) =
             children (heap two_tags ! 0) @ map Tag (filter (\<lambda>y. y \<noteq> 2 + j) [2, 2 + 1, 2 + 2]) \<and>
           children (heap s' ! Q) =
             (if Q < 2 then children (heap two_tags ! Q) else text_children ([?A, ?B, ?C] ! (Q - 2))) @
             [Tag (2 + j)] \<and>
           parent (heap s' ! (2 + j)) = Some Q \<and>
           (\<forall>r. r < length (heap s') \<longrightarrow>
              count_list (children (heap s' ! r)) (Tag (2 + j)) = (if r = Q then 1 else 0)))" for Q j
    unfolding l two by blast
  from general [of 1 1] c have second: "\<exists>s'. with_three 2 0 0 ?A ?B ?C (add 2 0 1 [ATag 3]) two_tags = Inr s' \<and>
      children (heap s' ! 0) = [Tag 2, Tag 4] \<and> children (heap s' ! 1) = [Tag 3] \<and>
      parent (heap s' ! 3) = Some 1"
    unfolding ch by auto
  from general [of 2 2] c have third: "\<exists>s'. with_three 2 0 0 ?A ?B ?C (add 2 0 2 [ATag 4]) two_tags = Inr s' \<and>
      children (heap s' ! 0) = [Tag 2, Tag 3] \<and> children (heap s' ! 2) = [Text ''one'', Tag 4] \<and>
      parent (heap s' ! 4) = Some 2"
    unfolding ch using t by auto
  show ?thesis
    using p c n first second third by blast
qed

text \<open>
  Claim C2 fails on the code when the explicit add is made in a nested scope.
  \<open>add\<close> marks the object as used in the top frame only
  (\<open>stack[-1].used.add(obj)\<close>); inside \<open>with Q:\<close> that is the frame of \<open>Q\<close>, while
  the object was collected by the frame of \<open>P\<close>, and \<open>__exit__\<close> of \<open>P\<close> looks in
  its own frame only and adds the object once more. (The decorator path \<open>__call__\<close>
  marks the frame that collected the tag, \<open>self._ctx.used.add(self)\<close>.) In the run
  below \<open>P = div()\<close>, \<open>Q = ul()\<close>, then
  \<open>with P: a = li(); b = li(); c = li(); with Q: Q.add(b)\<close>; the objects get the
  references 0 to 4 in this order. Afterwards \<open>b\<close> is a child of \<open>Q\<close> and of \<open>P\<close>,
  so it occurs twice in the tree, \<open>P\<close> has all three as children, and the parent
  of \<open>b\<close> is \<open>P\<close>, not \<open>Q\<close>.
\<close>

theorem nested_add_attaches_twice:
  "map_ok (\<lambda>s. (map (\<lambda>n. (class_name (klass n), children n, parent n)) (heap s), frames s 0))
     (nested_add_example 5) =
   Inr ([(''div'', [Tag 2, Tag 3, Tag 4], None),
         (''ul'', [Tag 3], None),
         (''li'', [], Some 0),
         (''li'', [], Some 0),
         (''li'', [], Some 0)], None)"
  by (simp add: nested_add_example_def init_def add_def add_tag_def exit_def enter_def
        add_to_ctx_def update_top_frame_def update_node_def empty_state_def plain_class_def
        frames_def Let_def eval_nat_numeral)

end
